theory Spec2Isabelle
  imports Main "HOL-Library.Word"
begin

unbundle bit_operations_syntax

section \<open>Bytes and buffers\<close>

text \<open>
  The flash partition and the scratch buffer \<open>page\<close> are byte arrays. A pointer into
  \<open>page\<close> is its byte offset. \<open>slice\<close> reads a range, \<open>poke\<close> overwrites one.
\<close>

type_synonym byte = "8 word"
type_synonym u32 = "32 word"

definition slice :: "nat \<Rightarrow> nat \<Rightarrow> 'a list \<Rightarrow> 'a list" where
  "slice off n xs = take n (drop off xs)"

definition poke :: "'a list \<Rightarrow> nat \<Rightarrow> 'a list \<Rightarrow> 'a list" where
  "poke buf off bs = take off buf @ bs @ drop (off + length bs) buf"

text \<open>
  A \<open>uint32_t\<close> field is read and written in the byte order of the host, which the
  source does not fix (the routers are big-endian MIPS or little-endian ARM): it is a
  parameter \<open>be\<close> of the model.
\<close>

definition load32 :: "bool \<Rightarrow> byte list \<Rightarrow> u32" where
  "load32 be bs = word_rcat (if be then bs else rev bs)"

definition store32 :: "bool \<Rightarrow> u32 \<Rightarrow> byte list" where
  "store32 be w =
     (let bs = [ucast (drop_bit 24 w), ucast (drop_bit 16 w), ucast (drop_bit 8 w), ucast w]
      in if be then bs else rev bs)"

section \<open>Constants and the record layout\<close>

definition BOOTCOUNT_MAGIC :: u32 where
  "BOOTCOUNT_MAGIC = 0x20110811"

definition BC_OFFSET_INCREMENT_MIN :: u32 where
  "BC_OFFSET_INCREMENT_MIN = 16"

text \<open>\<open>sizeof(struct bootcounter)\<close>: three \<open>uint32_t\<close> fields, magic at 0, count at 4,
  checksum at 8.\<close>

definition sizeof_bootcounter :: nat where
  "sizeof_bootcounter = 12"

text \<open>The three fields of \<open>struct mtd_info_user\<close> that the function reads; all are
  \<open>__u32\<close>. The field \<open>size\<close> is called \<open>size_mtd\<close> here.\<close>

record mtd_info_user =
  size_mtd :: u32
  erasesize :: u32
  writesize :: u32

text \<open>
  Lines 105-113: \<open>bc_offset_increment\<close> (an \<open>unsigned int\<close>). Lines 115-122:
  \<open>erase_size\<close>; the C variable is an \<open>int\<close> that receives a 32-bit unsigned value, kept
  here with its 32 bits. Line 124: \<open>page_num_bc = erase_size / bc_offset_increment\<close>,
  an unsigned division, since one operand is \<open>unsigned int\<close>. Line 131: \<open>num_bc\<close>.
\<close>

definition bc_offset_increment :: "mtd_info_user \<Rightarrow> u32" where
  "bc_offset_increment mi =
     (if writesize mi < BC_OFFSET_INCREMENT_MIN then BC_OFFSET_INCREMENT_MIN
      else writesize mi)"

definition erase_size :: "mtd_info_user \<Rightarrow> u32" where
  "erase_size mi =
     (if erasesize mi < bc_offset_increment mi then bc_offset_increment mi
      else erasesize mi)"

definition page_num_bc :: "mtd_info_user \<Rightarrow> u32" where
  "page_num_bc mi = erase_size mi div bc_offset_increment mi"

definition num_bc :: "mtd_info_user \<Rightarrow> u32" where
  "num_bc mi = size_mtd mi div bc_offset_increment mi"

section \<open>The device and the environment of one call\<close>

text \<open>
  Everything \<open>mtd_resetbc\<close> obtains from outside: the answer of \<open>ioctl(MEMGETINFO)\<close>
  (\<open>None\<close> when it returns a negative value), the partition contents, the host byte
  order, whether \<open>malloc\<close> succeeds and the indeterminate bytes the fresh block then
  holds (\<open>heap d k\<close> at offset \<open>k\<close>), and the values that \<open>ioctl(MEMERASE)\<close> and \<open>pwrite\<close>
  return and the function stores in \<open>ret\<close> (it makes at most one call of each). The
  source ignores the result of \<open>pread\<close>; the model's reads deliver the bytes of the
  partition. The source does not say what a failed erase or write leaves on the device;
  the model leaves the partition as it was.
\<close>

record mtd_dev =
  geometry :: "mtd_info_user option"
  flash :: "byte list"
  big_endian :: bool
  malloc_ok :: bool
  heap :: "nat \<Rightarrow> byte"
  erase_ret :: int
  pwrite_ret :: int

text \<open>\<open>pread(fd, page + dst, n, off)\<close>: the bytes that exist are copied.\<close>

definition pread :: "byte list \<Rightarrow> byte list \<Rightarrow> nat \<Rightarrow> nat \<Rightarrow> nat \<Rightarrow> byte list" where
  "pread fl buf dst n off = poke buf dst (slice off n fl)"

text \<open>A successful erase sets the bytes of the range to \<open>0xff\<close>; a write stores the bytes
  it transfers, those that fall inside the partition.\<close>

definition dev_erase :: "byte list \<Rightarrow> nat \<Rightarrow> nat \<Rightarrow> byte list" where
  "dev_erase fl start len =
     map (\<lambda>k. if start \<le> k \<and> k < start + len then 0xff else fl ! k) [0..<length fl]"

definition dev_write :: "byte list \<Rightarrow> nat \<Rightarrow> byte list \<Rightarrow> byte list" where
  "dev_write fl off bs =
     map (\<lambda>k. if off \<le> k \<and> k < off + length bs then bs ! (k - off) else fl ! k) [0..<length fl]"

text \<open>The calls that change the device or make the change durable, in the order issued.
  An erase is tagged with the branch that issued it (lines 171-174 or 189-192).\<close>

datatype erase_scope = Whole_device | Single_block

datatype call =
    MEMERASE erase_scope nat nat int
  | Pwrite nat "byte list" int
  | Sync

text \<open>
  The local \<open>char *page\<close> is declared without an initialiser (line 82). At label \<open>out\<close>
  (lines 226-229) it is tested and, when non-null, freed.
\<close>

datatype page_ptr = Indeterminate | Null | Allocated

datatype cleanup = Uninitialised_read | Nothing_freed | Freed

fun at_out :: "page_ptr \<Rightarrow> cleanup" where
  "at_out Indeterminate = Uninitialised_read"
| "at_out Null = Nothing_freed"
| "at_out Allocated = Freed"

record run =
  retval :: int
  flash_after :: "byte list"
  calls :: "call list"
  cleanup :: cleanup

text \<open>
  \<open>retval r\<close> is the value of the variable \<open>retval\<close> when label \<open>out\<close> is reached. The
  call returns it when the cleanup is defined. A cleanup that reads the unassigned
  pointer has undefined behaviour (the test may succeed and \<open>free\<close> be handed whatever
  the pointer holds), so that no return value is certain: \<open>returned r = None\<close>.
\<close>

definition returned :: "run \<Rightarrow> int option" where
  "returned r = (if cleanup r = Uninitialised_read then None else Some (retval r))"

section \<open>The scan loop (lines 133-157)\<close>

text \<open>
  The locals of the loop. \<open>i\<close> and \<open>page_len\<close> stay at or below \<open>num_bc\<close> and \<open>page_num_bc\<close>,
  which are at most \<open>2^28\<close>, so they are natural numbers here; the 32-bit products
  \<open>i * bc_offset_increment\<close> and \<open>page_len * bc_offset_increment\<close> stay at or below the
  partition size and the erase size and do not wrap. \<open>erase_start\<close> is a \<open>size_t\<close> that
  grows by \<open>erase_size\<close> up to at most the partition size plus one erase unit; it is kept
  as a natural number and reduced to 32 bits where it is stored in the \<open>__u32\<close> field
  \<open>erase_info.start\<close>. \<open>last_count\<close> is an \<open>int\<close> assigned from the unsigned \<open>count\<close> field.
  \<open>curr\<close> is the offset of the current slot in \<open>page\<close>; it is read only after the loop
  body or line 186 has assigned it. \<open>page\<close> holds the \<open>erase_size\<close> bytes of the allocated
  block.
\<close>

record scan_vars =
  i_v :: nat
  page_len_v :: nat
  erase_start_v :: nat
  last_count_v :: int
  curr_v :: nat
  page_v :: "byte list"

text \<open>\<open>Inl r\<close> is \<open>retval = r; goto out\<close>; \<open>Inr s\<close> is leaving the loop, by \<open>break\<close> or
  because \<open>i < num_bc\<close> is false.\<close>

function scan_loop ::
  "bool \<Rightarrow> byte list \<Rightarrow> nat \<Rightarrow> nat \<Rightarrow> nat \<Rightarrow> nat \<Rightarrow> scan_vars \<Rightarrow> int + scan_vars" where
  "scan_loop be fl inc pnb es nbc s =
     (if i_v s < nbc then
        let c = page_len_v s * inc;
            page = pread fl (page_v s) c sizeof_bootcounter (i_v s * inc);
            wrap = (page_len_v s + 1 \<ge> pnb);
            s1 = s\<lparr>curr_v := c, page_v := page,
                   page_len_v := (if wrap then 0 else page_len_v s + 1),
                   erase_start_v := (if wrap then erase_start_v s + es else erase_start_v s)\<rparr>;
            magic = load32 be (slice c 4 page)
        in if magic \<noteq> BOOTCOUNT_MAGIC \<and> magic \<noteq> 0xffffffff then Inl (- 3)
           else if magic = 0xffffffff then Inr s1
           else scan_loop be fl inc pnb es nbc
                  (s1\<lparr>last_count_v := sint (load32 be (slice (c + 4) 4 page)),
                      i_v := i_v s + 1\<rparr>)
      else Inr s)"
  by pat_completeness auto
termination
  by (relation "measure (\<lambda>(be, fl, inc, pnb, es, nbc, s). nbc - i_v s)") auto

declare scan_loop.simps [simp del]

section \<open>The reset record and the write-back (lines 202-224)\<close>

definition reset_record :: "bool \<Rightarrow> byte list \<Rightarrow> nat \<Rightarrow> nat \<Rightarrow> byte list" where
  "reset_record be page c inc =
     (let p0 = poke page c (replicate inc 0xff);
          p1 = poke p0 c (store32 be BOOTCOUNT_MAGIC);
          p2 = poke p1 (c + 4) (store32 be 0)
      in poke p2 (c + 8) (store32 be BOOTCOUNT_MAGIC))"

definition write_back :: "mtd_dev \<Rightarrow> nat \<Rightarrow> byte list \<Rightarrow> call list \<Rightarrow> scan_vars \<Rightarrow> run" where
  "write_back d inc fl cs s =
     (let page = reset_record (big_endian d) (page_v s) (curr_v s) inc;
          data = take (page_len_v s * inc) page;
          ret = pwrite_ret d
      in if ret < 0 then
           \<lparr>retval = - 6, flash_after = fl,
            calls = cs @ [Pwrite (erase_start_v s) data ret], cleanup = at_out Allocated\<rparr>
         else
           \<lparr>retval = 0, flash_after = dev_write fl (erase_start_v s) (take (nat ret) data),
            calls = cs @ [Pwrite (erase_start_v s) data ret, Sync],
            cleanup = at_out Allocated\<rparr>)"

section \<open>\<open>mtd_resetbc\<close>\<close>

definition scan_init :: "mtd_dev \<Rightarrow> nat \<Rightarrow> scan_vars" where
  "scan_init d es =
     \<lparr>i_v = 0, page_len_v = 0, erase_start_v = 0, last_count_v = 0, curr_v = 0,
      page_v = map (heap d) [0..<es]\<rparr>"

text \<open>Lines 160-224: the test of \<open>last_count\<close>, the choice of the erase, and the
  write-back.\<close>

definition erase_and_write :: "mtd_dev \<Rightarrow> mtd_info_user \<Rightarrow> scan_vars \<Rightarrow> run" where
  "erase_and_write d mi s =
     (let inc = unat (bc_offset_increment mi);
          es = unat (erase_size mi);
          nbc = unat (num_bc mi)
      in if last_count_v s = 0 then
           \<lparr>retval = 0, flash_after = flash d, calls = [], cleanup = at_out Allocated\<rparr>
         else if i_v s = nbc then
           (let ret = erase_ret d;
                c = MEMERASE Whole_device 0 (unat (size_mtd mi)) ret
            in if ret < 0 then
                 \<lparr>retval = - 4, flash_after = flash d, calls = [c],
                  cleanup = at_out Allocated\<rparr>
               else
                 write_back d inc (dev_erase (flash d) 0 (unat (size_mtd mi))) [c]
                   (s\<lparr>i_v := 0, page_len_v := 1, erase_start_v := 0, curr_v := 0\<rparr>))
         else
           (let ret = erase_ret d;
                start = erase_start_v s mod 2 ^ 32;
                c = MEMERASE Single_block start es ret
            in if ret < 0 then
                 \<lparr>retval = - 5, flash_after = flash d, calls = [c],
                  cleanup = at_out Allocated\<rparr>
               else
                 write_back d inc (dev_erase (flash d) start es) [c] s))"

text \<open>Lines 93-157 and the exits through label \<open>out\<close>. \<open>scan_prefix d mi n\<close> is the loop
  of the device run over its first \<open>n\<close> slots; the function runs it over all \<open>num_bc\<close>.\<close>

definition scan_prefix :: "mtd_dev \<Rightarrow> mtd_info_user \<Rightarrow> nat \<Rightarrow> int + scan_vars" where
  "scan_prefix d mi n =
     scan_loop (big_endian d) (flash d) (unat (bc_offset_increment mi))
       (unat (page_num_bc mi)) (unat (erase_size mi)) n
       (scan_init d (unat (erase_size mi)))"

definition dev_scan :: "mtd_dev \<Rightarrow> mtd_info_user \<Rightarrow> int + scan_vars" where
  "dev_scan d mi = scan_prefix d mi (unat (num_bc mi))"

definition mtd_resetbc :: "mtd_dev \<Rightarrow> run" where
  "mtd_resetbc d =
     (case geometry d of
        None \<Rightarrow>
          \<lparr>retval = - 1, flash_after = flash d, calls = [], cleanup = at_out Indeterminate\<rparr>
      | Some mi \<Rightarrow>
          if \<not> malloc_ok d then
            \<lparr>retval = - 2, flash_after = flash d, calls = [], cleanup = at_out Null\<rparr>
          else
            (case dev_scan d mi of
               Inl r \<Rightarrow>
                 \<lparr>retval = r, flash_after = flash d, calls = [],
                  cleanup = at_out Allocated\<rparr>
             | Inr s \<Rightarrow> erase_and_write d mi s))"

section \<open>Reading the log\<close>

text \<open>
  The fields of slot \<open>k\<close> as they lie on the partition, and the two shapes of log the
  properties speak about: the first \<open>k\<close> slots are written records (their magic is
  \<open>BOOTCOUNT_MAGIC\<close>), and the count of the last written record.
\<close>

definition slot_magic :: "bool \<Rightarrow> byte list \<Rightarrow> nat \<Rightarrow> nat \<Rightarrow> u32" where
  "slot_magic be fl inc k = load32 be (slice (k * inc) 4 fl)"

definition slot_count :: "bool \<Rightarrow> byte list \<Rightarrow> nat \<Rightarrow> nat \<Rightarrow> u32" where
  "slot_count be fl inc k = load32 be (slice (k * inc + 4) 4 fl)"

definition written_prefix :: "bool \<Rightarrow> byte list \<Rightarrow> nat \<Rightarrow> nat \<Rightarrow> bool" where
  "written_prefix be fl inc k =
     list_all (\<lambda>j. slot_magic be fl inc j = BOOTCOUNT_MAGIC) [0..<k]"

definition last_written_count :: "bool \<Rightarrow> byte list \<Rightarrow> nat \<Rightarrow> nat \<Rightarrow> u32" where
  "last_written_count be fl inc k = (if k = 0 then 0 else slot_count be fl inc (k - 1))"

text \<open>The state of the locals after the read and the increment of \<open>page_len\<close>
  (lines 135-140), named for the proofs.\<close>

definition scan_read :: "byte list \<Rightarrow> nat \<Rightarrow> nat \<Rightarrow> nat \<Rightarrow> scan_vars \<Rightarrow> scan_vars" where
  "scan_read fl inc pnb es s =
     s\<lparr>curr_v := page_len_v s * inc,
       page_v := pread fl (page_v s) (page_len_v s * inc) sizeof_bootcounter (i_v s * inc),
       page_len_v := (if page_len_v s + 1 \<ge> pnb then 0 else page_len_v s + 1),
       erase_start_v := (if page_len_v s + 1 \<ge> pnb then erase_start_v s + es
                         else erase_start_v s)\<rparr>"

text \<open>What holds of the locals at the head of the loop, and after the read of slot \<open>i\<close>.\<close>

definition head_inv :: "byte list \<Rightarrow> nat \<Rightarrow> nat \<Rightarrow> nat \<Rightarrow> nat \<Rightarrow> scan_vars \<Rightarrow> bool" where
  "head_inv fl inc pnb es L s \<longleftrightarrow>
     page_len_v s = i_v s mod pnb \<and> erase_start_v s = (i_v s div pnb) * es \<and>
     length (page_v s) = L \<and>
     (\<forall>j<page_len_v s.
        slice (j * inc) 12 (page_v s) = slice ((i_v s - page_len_v s + j) * inc) 12 fl)"

definition read_inv :: "byte list \<Rightarrow> nat \<Rightarrow> nat \<Rightarrow> nat \<Rightarrow> nat \<Rightarrow> scan_vars \<Rightarrow> bool" where
  "read_inv fl inc pnb es L s \<longleftrightarrow>
     page_len_v s = Suc (i_v s) mod pnb \<and> erase_start_v s = (Suc (i_v s) div pnb) * es \<and>
     curr_v s = (i_v s mod pnb) * inc \<and> length (page_v s) = L \<and>
     (\<forall>j\<le>i_v s mod pnb.
        slice (j * inc) 12 (page_v s) = slice ((i_v s - i_v s mod pnb + j) * inc) 12 fl)"

text \<open>What holds of the locals when the loop is left with \<open>Inr s'\<close>, started from \<open>s\<close>.\<close>

definition exit_post ::
  "bool \<Rightarrow> byte list \<Rightarrow> nat \<Rightarrow> nat \<Rightarrow> nat \<Rightarrow> nat \<Rightarrow> nat \<Rightarrow> scan_vars \<Rightarrow> scan_vars \<Rightarrow> bool" where
  "exit_post be fl inc pnb es nbc L s s' \<longleftrightarrow>
     i_v s \<le> i_v s' \<and> i_v s' \<le> nbc \<and>
     (\<forall>j. i_v s \<le> j \<and> j < i_v s' \<longrightarrow> slot_magic be fl inc j = BOOTCOUNT_MAGIC) \<and>
     (if i_v s' < nbc then slot_magic be fl inc (i_v s') = 0xffffffff \<and> read_inv fl inc pnb es L s'
      else head_inv fl inc pnb es L s') \<and>
     last_count_v s' =
       (if i_v s' = i_v s then last_count_v s else sint (slot_count be fl inc (i_v s' - 1)))"


section \<open>The log of a device\<close>

text \<open>
  \<open>reaches_scan d mi\<close>: the geometry query answers \<open>mi\<close>, the allocation succeeds, and
  the partition has the size the geometry reports. The slots of the device are those
  of its partition at the stride of its geometry. \<open>zero_record\<close> is a slot holding the
  reset record: magic and checksum \<open>BOOTCOUNT_MAGIC\<close>, count 0, the rest \<open>0xff\<close>.
\<close>

definition reaches_scan :: "mtd_dev \<Rightarrow> mtd_info_user \<Rightarrow> bool" where
  "reaches_scan d mi \<longleftrightarrow>
     geometry d = Some mi \<and> malloc_ok d \<and> length (flash d) = unat (size_mtd mi)"

definition dev_magic :: "mtd_dev \<Rightarrow> mtd_info_user \<Rightarrow> nat \<Rightarrow> u32" where
  "dev_magic d mi k = slot_magic (big_endian d) (flash d) (unat (bc_offset_increment mi)) k"

definition dev_written_prefix :: "mtd_dev \<Rightarrow> mtd_info_user \<Rightarrow> nat \<Rightarrow> bool" where
  "dev_written_prefix d mi k =
     written_prefix (big_endian d) (flash d) (unat (bc_offset_increment mi)) k"

definition dev_last_count :: "mtd_dev \<Rightarrow> mtd_info_user \<Rightarrow> nat \<Rightarrow> u32" where
  "dev_last_count d mi k =
     last_written_count (big_endian d) (flash d) (unat (bc_offset_increment mi)) k"

definition zero_record :: "bool \<Rightarrow> nat \<Rightarrow> byte list" where
  "zero_record be inc =
     store32 be BOOTCOUNT_MAGIC @ store32 be 0 @ store32 be BOOTCOUNT_MAGIC @
     replicate (inc - 12) 0xff"

section \<open>Example devices\<close>

text \<open>A 64 KiB partition with 4 KiB erase blocks that reports a write size of 8.\<close>

definition geometry_ws8 :: mtd_info_user where
  "geometry_ws8 = \<lparr>size_mtd = 65536, erasesize = 4096, writesize = 8\<rparr>"

text \<open>A device whose \<open>MEMGETINFO\<close> query fails.\<close>

definition dev_no_geometry :: mtd_dev where
  "dev_no_geometry =
     \<lparr>geometry = None, flash = [], big_endian = False, malloc_ok = True,
      heap = (\<lambda>_. 0), erase_ret = 0, pwrite_ret = 0\<rparr>"

text \<open>
  A 64-byte partition of four 16-byte slots, in erase blocks of two slots. A written
  record with count \<open>n\<close> on a little-endian host, and an erased slot.
\<close>

definition geometry_small :: mtd_info_user where
  "geometry_small = \<lparr>size_mtd = 64, erasesize = 32, writesize = 1\<rparr>"

definition le_record :: "byte \<Rightarrow> byte list" where
  "le_record n =
     [0x11, 0x08, 0x11, 0x20, n, 0, 0, 0, 0x11, 0x08, 0x11, 0x20, 0xff, 0xff, 0xff, 0xff]"

definition erased_slot :: "byte list" where
  "erased_slot = replicate 16 0xff"

definition dev_small :: "byte list \<Rightarrow> int \<Rightarrow> int \<Rightarrow> mtd_dev" where
  "dev_small fl er wr =
     \<lparr>geometry = Some geometry_small, flash = fl, big_endian = False, malloc_ok = True,
      heap = (\<lambda>_. 0xaa), erase_ret = er, pwrite_ret = wr\<rparr>"

text \<open>Two records, the last with count 0, then free slots.\<close>

definition dev_zero :: mtd_dev where
  "dev_zero = dev_small (le_record 3 @ le_record 0 @ erased_slot @ erased_slot) 0 0"

text \<open>One record, then a slot whose magic is 0.\<close>

definition dev_corrupt :: mtd_dev where
  "dev_corrupt = dev_small (le_record 1 @ replicate 16 0 @ erased_slot @ erased_slot) 0 0"

text \<open>Four records: the log is full. The write transfers 5 of the 16 bytes.\<close>

definition dev_full :: mtd_dev where
  "dev_full = dev_small (le_record 1 @ le_record 2 @ le_record 3 @ le_record 4) 0 5"

text \<open>One record with count 1; the first free slot, slot 1, is the last slot of the
  first erase block. Erase and write succeed.\<close>

definition dev_last_slot :: mtd_dev where
  "dev_last_slot = dev_small (le_record 1 @ erased_slot @ erased_slot @ erased_slot) 0 0"

text \<open>A first slot whose magic is \<open>0xffffffff\<close> and whose count field is 1.\<close>

definition ff_magic_slot :: "byte list" where
  "ff_magic_slot =
     [0xff, 0xff, 0xff, 0xff, 1, 0, 0, 0, 0xff, 0xff, 0xff, 0xff, 0xff, 0xff, 0xff, 0xff]"

definition dev_ff_magic :: mtd_dev where
  "dev_ff_magic = dev_small (ff_magic_slot @ erased_slot @ erased_slot @ erased_slot) 0 0"

text \<open>
  A 64-byte partition that is one erase block of four slots: one record with count 1,
  then free slots. The fresh heap block holds \<open>0xaa\<close> in every byte; erase and write
  succeed, the write in full.
\<close>

definition geometry_one_block :: mtd_info_user where
  "geometry_one_block = \<lparr>size_mtd = 64, erasesize = 64, writesize = 1\<rparr>"

definition dev_padding :: mtd_dev where
  "dev_padding =
     \<lparr>geometry = Some geometry_one_block,
      flash = le_record 1 @ erased_slot @ erased_slot @ erased_slot,
      big_endian = False, malloc_ok = True, heap = (\<lambda>_. 0xaa), erase_ret = 0,
      pwrite_ret = 32\<rparr>"

section \<open>Failure classes\<close>

text \<open>
  \<open>partition_sized\<close>: when the geometry is known, the partition has the size it reports.
  \<open>corrupt_magic_seen\<close>: some slot, with written records before it, has a magic that is
  neither \<open>BOOTCOUNT_MAGIC\<close> nor \<open>0xffffffff\<close>.
\<close>

definition partition_sized :: "mtd_dev \<Rightarrow> bool" where
  "partition_sized d =
     (case geometry d of None \<Rightarrow> True | Some mi \<Rightarrow> length (flash d) = unat (size_mtd mi))"

definition corrupt_magic_seen :: "mtd_dev \<Rightarrow> mtd_info_user \<Rightarrow> bool" where
  "corrupt_magic_seen d mi =
     list_ex (\<lambda>k. dev_written_prefix d mi k \<and> dev_magic d mi k \<noteq> BOOTCOUNT_MAGIC \<and>
                  dev_magic d mi k \<noteq> 0xffffffff) [0..<unat (num_bc mi)]"

definition erase_failed :: "erase_scope \<Rightarrow> call \<Rightarrow> bool" where
  "erase_failed sc c = (case c of MEMERASE sc' a n r \<Rightarrow> sc' = sc \<and> r < 0 | _ \<Rightarrow> False)"

definition write_failed :: "call \<Rightarrow> bool" where
  "write_failed c = (case c of Pwrite off bs r \<Rightarrow> r < 0 | _ \<Rightarrow> False)"

section \<open>Byte ranges\<close>

text \<open>
  Reading and overwriting ranges of a buffer, and the effect of the device operations on
  single bytes.
\<close>

lemma length_poke: "off + length bs \<le> length buf \<Longrightarrow> length (poke buf off bs) = length buf"
  by (simp add: poke_def)

lemma length_slice: "off + n \<le> length xs \<Longrightarrow> length (slice off n xs) = n"
  by (simp add: slice_def)

lemma slice_poke_inside:
  "off + length bs \<le> length buf \<Longrightarrow> a + n \<le> length bs \<Longrightarrow>
   slice (off + a) n (poke buf off bs) = slice a n bs"
  by (simp add: slice_def poke_def)

lemma slice_poke_before:
  "off + length bs \<le> length buf \<Longrightarrow> a + n \<le> off \<Longrightarrow>
   slice a n (poke buf off bs) = slice a n buf"
  by (simp add: slice_def poke_def drop_take)

lemma slice_slice: "a + n \<le> m \<Longrightarrow> slice a n (slice off m xs) = slice (off + a) n xs"
  by (simp add: slice_def drop_take add.commute[of a off])

lemma slice_take: "a + n \<le> m \<Longrightarrow> slice a n (take m xs) = slice a n xs"
  by (simp add: slice_def drop_take)

lemma slice_whole: "length xs = n \<Longrightarrow> slice 0 n xs = xs"
  by (simp add: slice_def)

lemma nth_poke_outside:
  assumes "off + length bs \<le> length buf" "o' < off \<or> off + length bs \<le> o'"
  shows "poke buf off bs ! o' = buf ! o'"
proof (cases "o' < off")
  case True
  then show ?thesis using assms(1) by (simp add: poke_def nth_append)
next
  case False
  then have ge: "off + length bs \<le> o'" using assms(2) by simp
  have lt: "min (length buf) off = off" using assms(1) by simp
  have "poke buf off bs ! o' = (bs @ drop (off + length bs) buf) ! (o' - off)"
    unfolding poke_def using False by (simp add: nth_append_right lt)
  also have "\<dots> = drop (off + length bs) buf ! (o' - off - length bs)"
    using ge by (simp add: nth_append_right)
  also have "\<dots> = buf ! o'" using ge assms(1) by simp
  finally show ?thesis .
qed

lemma dev_write_nil: "dev_write fl off [] = fl"
  by (auto simp: dev_write_def intro!: nth_equalityI)

lemma dev_write_nth:
  "k < length fl \<Longrightarrow>
   dev_write fl off bs ! k = (if off \<le> k \<and> k < off + length bs then bs ! (k - off) else fl ! k)"
  by (simp add: dev_write_def)

lemma length_dev_erase: "length (dev_erase fl a n) = length fl"
  by (simp add: dev_erase_def)

lemma dev_erase_erased:
  assumes "\<And>k. start \<le> k \<Longrightarrow> k < start + len \<Longrightarrow> k < length fl \<Longrightarrow> fl ! k = 0xff"
  shows "dev_erase fl start len = fl"
  using assms by (auto simp: dev_erase_def intro!: nth_equalityI)

section \<open>The reset record\<close>

text \<open>
  The three stores of lines 204-206 after the \<open>memset\<close> of line 202 leave
  one zero record in the slot.
\<close>

lemma length_store32: "length (store32 be w) = 4"
  by (simp add: store32_def Let_def)

lemma length_zero_record: "12 \<le> inc \<Longrightarrow> length (zero_record be inc) = inc"
  by (simp add: zero_record_def length_store32)

lemma reset_record_eq:
  assumes "12 \<le> inc" "c + inc \<le> length page"
  shows "reset_record be page c inc = poke page c (zero_record be inc)"
proof -
  obtain m0 m1 m2 m3 where m: "store32 be BOOTCOUNT_MAGIC = [m0, m1, m2, m3]"
    by (cases be) (simp_all add: store32_def Let_def)
  obtain z0 z1 z2 z3 where z: "store32 be 0 = [z0, z1, z2, z3]"
    by (cases be) (simp_all add: store32_def Let_def)
  obtain r where r: "inc = 12 + r" using assms(1) by (metis le_Suc_ex)
  have rep: "replicate inc (0xff::byte) = replicate 4 0xff @ replicate 4 0xff @ replicate 4 0xff @ replicate r 0xff"
    unfolding r by (simp add: replicate_add[symmetric])
  have lc: "length (take c page) = c" using assms(2) by simp
  show ?thesis
    unfolding reset_record_def zero_record_def Let_def poke_def m z rep
    using lc r by (simp add: numeral_eq_Suc)
qed

lemma magic_not_erased: "BOOTCOUNT_MAGIC \<noteq> 0xffffffff"
  by (simp add: BOOTCOUNT_MAGIC_def)

lemma sint_eq_0: "sint (w::u32) = 0 \<longleftrightarrow> w = 0"
  by (rule signed_eq_0_iff)

lemma replicate_4: "replicate 4 x = [x, x, x, x]"
  by (simp add: eval_nat_numeral)

section \<open>Bounds of the layout\<close>

text \<open>
  The stride is at least 16, an erase unit holds at least one slot, and the slots that
  are scanned lie inside the buffer and the partition.
\<close>

lemma layout_bounds:
  "12 \<le> unat (bc_offset_increment mi)"
  "0 < unat (page_num_bc mi)"
  "unat (page_num_bc mi) * unat (bc_offset_increment mi) \<le> unat (erase_size mi)"
  "unat (num_bc mi) * unat (bc_offset_increment mi) \<le> unat (size_mtd mi)"
proof -
  have a: "16 \<le> unat (bc_offset_increment mi)"
    by (simp add: bc_offset_increment_def BC_OFFSET_INCREMENT_MIN_def word_less_nat_alt)
  have b: "unat (bc_offset_increment mi) \<le> unat (erase_size mi)"
    by (simp add: erase_size_def word_less_nat_alt)
  have c: "unat (page_num_bc mi) = unat (erase_size mi) div unat (bc_offset_increment mi)"
    by (simp add: page_num_bc_def unat_div)
  have d: "unat (num_bc mi) = unat (size_mtd mi) div unat (bc_offset_increment mi)"
    by (simp add: num_bc_def unat_div)
  show "12 \<le> unat (bc_offset_increment mi)" using a by simp
  show "0 < unat (page_num_bc mi)" using a b c by (simp add: div_greater_zero_iff)
  show "unat (page_num_bc mi) * unat (bc_offset_increment mi) \<le> unat (erase_size mi)"
    using c by simp
  show "unat (num_bc mi) * unat (bc_offset_increment mi) \<le> unat (size_mtd mi)"
    using d by simp
qed

lemma slot_bound:
  assumes "(k::nat) < n" "n * inc \<le> L"
  shows "k * inc + inc \<le> L"
proof -
  have "Suc k * inc \<le> n * inc" using assms(1) by (intro mult_le_mono1) simp
  then show ?thesis using assms(2) by simp
qed

lemma block_slot_index:
  assumes "0 < (pnb::nat)" "i - i mod pnb \<le> j" "j \<le> i"
  shows "j mod pnb = j - (i - i mod pnb)" and "j - (i - i mod pnb) \<le> i mod pnb"
proof -
  let ?b = "i - i mod pnb"
  have b: "?b = i div pnb * pnb" by (simp add: minus_mod_eq_div_mult)
  have le: "j - ?b \<le> i mod pnb" using assms(2,3) by simp
  then have lt: "j - ?b < pnb" using assms(1) mod_less_divisor[OF assms(1), of i] by simp
  have "j = i div pnb * pnb + (j - ?b)" using assms(2) b by simp
  then have "j mod pnb = (i div pnb * pnb + (j - ?b)) mod pnb" by simp
  also have "\<dots> = (j - ?b) mod pnb" by simp
  also have "\<dots> = j - ?b" using lt by simp
  finally show "j mod pnb = j - ?b" .
  show "j - ?b \<le> i mod pnb" by (rule le)
qed

lemma padding_offset:
  assumes "12 \<le> (inc::nat)" "12 \<le> o' mod inc"
  shows "o' < p * inc \<or> p * inc + 12 \<le> o'"
proof (rule ccontr)
  assume "\<not> (o' < p * inc \<or> p * inc + 12 \<le> o')"
  then have a: "p * inc \<le> o'" and b: "o' - p * inc < 12" by arith+
  have "o' = p * inc + (o' - p * inc)" using a by simp
  then have "o' mod inc = (p * inc + (o' - p * inc)) mod inc" by simp
  also have "\<dots> = (o' - p * inc) mod inc" by simp
  also have "\<dots> = o' - p * inc" using b assms(1) by simp
  finally show False using b assms(2) by simp
qed

lemma write_offset_drift:
  fixes k pnb es inc j :: nat
  assumes "pnb = es div inc"
  shows "k div pnb * es + j * inc = (k - k mod pnb + j) * inc + k div pnb * (es mod inc)"
proof -
  have a: "k - k mod pnb = k div pnb * pnb" by (simp add: minus_mod_eq_div_mult)
  have "es = pnb * inc + es mod inc" unfolding assms by simp
  then have "k div pnb * es = k div pnb * (pnb * inc + es mod inc)" by simp
  also have "\<dots> = k div pnb * pnb * inc + k div pnb * (es mod inc)"
    by (simp only: add_mult_distrib2 mult.assoc)
  finally show ?thesis unfolding a by (simp only: add_mult_distrib)
qed

section \<open>One pass of the loop body\<close>

text \<open>
  The read of slot \<open>i\<close> puts the 12 bytes of its record at slot position
  \<open>i mod page_num_bc\<close> of the buffer and leaves every other byte of the
  buffer as it was.
\<close>

lemma scan_loop_step:
  "scan_loop be fl inc pnb es nbc s =
     (if i_v s < nbc then
        (let s1 = scan_read fl inc pnb es s;
             magic = load32 be (slice (curr_v s1) 4 (page_v s1))
         in if magic \<noteq> BOOTCOUNT_MAGIC \<and> magic \<noteq> 0xffffffff then Inl (- 3)
            else if magic = 0xffffffff then Inr s1
            else scan_loop be fl inc pnb es nbc
                   (s1\<lparr>last_count_v := sint (load32 be (slice (curr_v s1 + 4) 4 (page_v s1))),
                       i_v := i_v s + 1\<rparr>))
      else Inr s)"
  by (subst scan_loop.simps) (simp add: Let_def scan_read_def)

lemma scan_read_fields:
  "i_v (scan_read fl inc pnb es s) = i_v s"
  "last_count_v (scan_read fl inc pnb es s) = last_count_v s"
  "curr_v (scan_read fl inc pnb es s) = page_len_v s * inc"
  by (simp_all add: scan_read_def)

lemma scan_read_inv:
  assumes g: "12 \<le> inc" "0 < pnb" "pnb * inc \<le> L" "nbc * inc \<le> length fl"
    and h: "head_inv fl inc pnb es L s" and i: "i_v s < nbc"
  shows "read_inv fl inc pnb es L (scan_read fl inc pnb es s)"
proof -
  let ?p = "page_len_v s" and ?i = "i_v s"
  have p: "?p = ?i mod pnb" and e: "erase_start_v s = (?i div pnb) * es"
    and len: "length (page_v s) = L"
    and buf: "\<And>j. j < ?p \<Longrightarrow> slice (j * inc) 12 (page_v s) = slice ((?i - ?p + j) * inc) 12 fl"
    using h by (auto simp: head_inv_def)
  have plt: "?p < pnb" using p g(2) by simp
  have cb: "?p * inc + inc \<le> L" using slot_bound[OF plt g(3)] .
  have fb: "?i * inc + inc \<le> length fl" using slot_bound[OF i g(4)] .
  have ls: "length (slice (?i * inc) 12 fl) = 12"
    using fb g(1) by (simp add: length_slice)
  let ?page = "pread fl (page_v s) (?p * inc) sizeof_bootcounter (?i * inc)"
  have pg: "?page = poke (page_v s) (?p * inc) (slice (?i * inc) 12 fl)"
    by (simp add: pread_def sizeof_bootcounter_def)
  have inb: "?p * inc + length (slice (?i * inc) 12 fl) \<le> length (page_v s)"
    using ls cb g(1) len by simp
  have l': "length ?page = L" unfolding pg using inb len by (simp add: length_poke)
  have new: "slice (?p * inc) 12 ?page = slice (?i * inc) 12 fl"
  proof -
    have "slice (?p * inc + 0) 12 ?page = slice 0 12 (slice (?i * inc) 12 fl)"
      unfolding pg using inb ls by (intro slice_poke_inside) simp_all
    then show ?thesis by (simp add: slice_slice)
  qed
  have old: "slice (j * inc) 12 ?page = slice ((?i - ?p + j) * inc) 12 fl" if "j < ?p" for j
  proof -
    have "Suc j * inc \<le> ?p * inc" using that by (intro mult_le_mono1) simp
    then have "j * inc + 12 \<le> ?p * inc" using g(1) by simp
    then have "slice (j * inc) 12 ?page = slice (j * inc) 12 (page_v s)"
      unfolding pg using inb by (intro slice_poke_before)
    then show ?thesis using buf[OF that] by simp
  qed
  have all: "slice (j * inc) 12 ?page = slice ((?i - ?i mod pnb + j) * inc) 12 fl"
    if "j \<le> ?i mod pnb" for j
  proof (cases "j < ?p")
    case True
    then show ?thesis using old[of j] p by simp
  next
    case False
    then have "j = ?p" using that p by simp
    then show ?thesis using new p by simp
  qed
  have ml: "?i mod pnb < pnb" using g(2) by simp
  have pl': "(if pnb \<le> ?p + 1 then 0 else ?p + 1) = Suc ?i mod pnb"
    using p ml by (auto simp: mod_Suc)
  have es': "(if pnb \<le> ?p + 1 then erase_start_v s + es else erase_start_v s)
      = (Suc ?i div pnb) * es"
    using p e ml by (auto simp: div_Suc mod_Suc)
  show ?thesis
    unfolding read_inv_def
    using pl' es' l' all p by (simp add: scan_read_def)
qed

lemma read_to_head:
  assumes "0 < pnb" and r: "read_inv fl inc pnb es L s"
  shows "head_inv fl inc pnb es L (s\<lparr>last_count_v := x, i_v := i_v s + 1\<rparr>)"
proof -
  let ?i = "i_v s"
  have buf: "\<And>j. j \<le> ?i mod pnb \<Longrightarrow>
      slice (j * inc) 12 (page_v s) = slice ((?i - ?i mod pnb + j) * inc) 12 fl"
    using r by (auto simp: read_inv_def)
  have b': "slice (j * inc) 12 (page_v s) = slice ((Suc ?i - Suc ?i mod pnb + j) * inc) 12 fl"
    if "j < Suc ?i mod pnb" for j
  proof -
    have ne: "Suc (?i mod pnb) \<noteq> pnb" using that by (auto simp: mod_Suc split: if_splits)
    then have m: "Suc ?i mod pnb = Suc (?i mod pnb)" by (simp add: mod_Suc)
    have "?i mod pnb \<le> ?i" by simp
    then have "Suc ?i - Suc ?i mod pnb = ?i - ?i mod pnb" using m by simp
    moreover have "j \<le> ?i mod pnb" using that m by simp
    ultimately show ?thesis using buf[of j] by simp
  qed
  show ?thesis
    unfolding head_inv_def using r b' by (simp add: read_inv_def)
qed

lemma read_inv_fields:
  assumes r: "read_inv fl inc pnb es L s"
  shows "load32 be (slice (curr_v s) 4 (page_v s)) = slot_magic be fl inc (i_v s)"
    and "load32 be (slice (curr_v s + 4) 4 (page_v s)) = slot_count be fl inc (i_v s)"
proof -
  let ?c = "curr_v s"
  have c: "?c = (i_v s mod pnb) * inc"
    and b: "slice ?c 12 (page_v s) = slice (i_v s * inc) 12 fl"
    using r by (auto simp: read_inv_def)
  have "slice ?c 4 (page_v s) = slice 0 4 (slice ?c 12 (page_v s))"
    by (simp add: slice_slice)
  then have m: "slice ?c 4 (page_v s) = slice (i_v s * inc) 4 fl"
    using b by (simp add: slice_slice)
  have "slice (?c + 4) 4 (page_v s) = slice 4 4 (slice ?c 12 (page_v s))"
    by (simp add: slice_slice)
  then have n: "slice (?c + 4) 4 (page_v s) = slice (i_v s * inc + 4) 4 fl"
    using b by (simp add: slice_slice)
  show "load32 be (slice (curr_v s) 4 (page_v s)) = slot_magic be fl inc (i_v s)"
    using m by (simp add: slot_magic_def)
  show "load32 be (slice (curr_v s + 4) 4 (page_v s)) = slot_count be fl inc (i_v s)"
    using n by (simp add: slot_count_def)
qed

lemma scan_read_untouched:
  assumes g: "12 \<le> inc" "pnb * inc \<le> L"
    and pl: "page_len_v s < pnb" and len: "length (page_v s) = L"
    and o: "12 \<le> o' mod inc"
  shows "page_v (scan_read fl inc pnb es s) ! o' = page_v s ! o'"
    and "length (page_v (scan_read fl inc pnb es s)) = L"
proof -
  let ?c = "page_len_v s * inc"
  let ?bs = "slice (i_v s * inc) 12 fl"
  have cb: "?c + inc \<le> L" using slot_bound[OF pl g(2)] .
  have lb: "length ?bs \<le> 12" by (simp add: slice_def)
  have inb: "?c + length ?bs \<le> length (page_v s)" using cb lb g(1) len by simp
  have pg: "page_v (scan_read fl inc pnb es s) = poke (page_v s) ?c ?bs"
    by (simp add: scan_read_def pread_def sizeof_bootcounter_def)
  have "o' < ?c \<or> ?c + 12 \<le> o'" using padding_offset[OF g(1) o] .
  then have "o' < ?c \<or> ?c + length ?bs \<le> o'" using lb by auto
  then show "page_v (scan_read fl inc pnb es s) ! o' = page_v s ! o'"
    unfolding pg using inb by (intro nth_poke_outside)
  show "length (page_v (scan_read fl inc pnb es s)) = L"
    unfolding pg using inb len by (simp add: length_poke)
qed

section \<open>The loop\<close>

text \<open>
  Where the loop ends is fixed by the magic fields of the slots: at the first slot whose
  magic is not \<open>BOOTCOUNT_MAGIC\<close>, or after the last slot.
\<close>

lemma written_prefix_iff:
  "written_prefix be fl inc k \<longleftrightarrow> (\<forall>j<k. slot_magic be fl inc j = BOOTCOUNT_MAGIC)"
  by (auto simp: written_prefix_def list_all_iff)

lemma head_inv_init: "head_inv fl inc pnb es es (scan_init d es)"
  by (simp add: head_inv_def scan_init_def)

lemma scan_loop_Inr:
  assumes g: "12 \<le> inc" "0 < pnb" "pnb * inc \<le> L" "nbc * inc \<le> length fl"
  shows "head_inv fl inc pnb es L s \<Longrightarrow> i_v s \<le> nbc \<Longrightarrow>
         scan_loop be fl inc pnb es nbc s = Inr s' \<Longrightarrow>
         exit_post be fl inc pnb es nbc L s s'"
proof (induction "nbc - i_v s" arbitrary: s)
  case 0
  then have "scan_loop be fl inc pnb es nbc s = Inr s" and "i_v s = nbc"
    by (simp_all add: scan_loop_step)
  with 0 show ?case by (auto simp: exit_post_def)
next
  case (Suc n)
  then have lt: "i_v s < nbc" by simp
  let ?s1 = "scan_read fl inc pnb es s"
  have r: "read_inv fl inc pnb es L ?s1"
    using scan_read_inv[OF g Suc.prems(1) lt] .
  have i1: "i_v ?s1 = i_v s" and lc1: "last_count_v ?s1 = last_count_v s"
    by (simp_all add: scan_read_fields)
  have m: "load32 be (slice (curr_v ?s1) 4 (page_v ?s1)) = slot_magic be fl inc (i_v s)"
    and c: "load32 be (slice (curr_v ?s1 + 4) 4 (page_v ?s1)) = slot_count be fl inc (i_v s)"
    using read_inv_fields[OF r] i1 by simp_all
  let ?s2 = "?s1\<lparr>last_count_v := sint (slot_count be fl inc (i_v s)), i_v := i_v ?s1 + 1\<rparr>"
  have eq: "scan_loop be fl inc pnb es nbc s =
     (if slot_magic be fl inc (i_v s) \<noteq> BOOTCOUNT_MAGIC \<and> slot_magic be fl inc (i_v s) \<noteq> 0xffffffff
      then Inl (- 3)
      else if slot_magic be fl inc (i_v s) = 0xffffffff then Inr ?s1
      else scan_loop be fl inc pnb es nbc ?s2)"
    using lt m c i1 by (subst scan_loop_step) (simp add: Let_def)
  show ?case
  proof (cases "slot_magic be fl inc (i_v s) = 0xffffffff")
    case True
    then have "s' = ?s1" using eq Suc.prems(3) by simp
    then show ?thesis using True r i1 lc1 lt by (auto simp: exit_post_def)
  next
    case False
    then have mg: "slot_magic be fl inc (i_v s) = BOOTCOUNT_MAGIC"
      and rec: "scan_loop be fl inc pnb es nbc ?s2 = Inr s'"
      using eq Suc.prems(3) by (auto split: if_splits)
    have h2: "head_inv fl inc pnb es L ?s2" using read_to_head[OF g(2) r] .
    have i2: "i_v ?s2 = Suc (i_v s)" using i1 by simp
    have n2: "n = nbc - i_v ?s2" using Suc.hyps(2) i2 by simp
    have le2: "i_v ?s2 \<le> nbc" using lt i2 by simp
    have post: "exit_post be fl inc pnb es nbc L ?s2 s'"
      using Suc.hyps(1)[OF n2 h2 le2 rec] .
    have lc2: "last_count_v ?s2 = sint (slot_count be fl inc (i_v s))" by simp
    have range: "slot_magic be fl inc j = BOOTCOUNT_MAGIC" if "i_v s \<le> j" "j < i_v s'" for j
    proof (cases "j = i_v s")
      case True then show ?thesis using mg by simp
    next
      case False
      then have "i_v ?s2 \<le> j" using that(1) i2 by simp
      then show ?thesis using post that(2) by (simp add: exit_post_def)
    qed
    have ge: "Suc (i_v s) \<le> i_v s'" using post i2 by (simp add: exit_post_def)
    have lcs: "last_count_v s' = sint (slot_count be fl inc (i_v s' - 1))"
    proof (cases "i_v s' = i_v ?s2")
      case True
      then have "last_count_v s' = last_count_v ?s2" using post by (simp add: exit_post_def)
      then show ?thesis using True lc2 i2 by simp
    next
      case False
      then show ?thesis using post by (simp add: exit_post_def)
    qed
    show ?thesis
      unfolding exit_post_def using post range ge lcs
      by (simp add: exit_post_def)
  qed
qed

lemma scan_loop_Inl:
  assumes g: "12 \<le> inc" "0 < pnb" "pnb * inc \<le> L" "nbc * inc \<le> length fl"
  shows "head_inv fl inc pnb es L s \<Longrightarrow> i_v s \<le> nbc \<Longrightarrow>
         scan_loop be fl inc pnb es nbc s = Inl r \<Longrightarrow>
         r = - 3 \<and> (\<exists>k. i_v s \<le> k \<and> k < nbc \<and>
            (\<forall>j. i_v s \<le> j \<and> j < k \<longrightarrow> slot_magic be fl inc j = BOOTCOUNT_MAGIC) \<and>
            slot_magic be fl inc k \<noteq> BOOTCOUNT_MAGIC \<and> slot_magic be fl inc k \<noteq> 0xffffffff)"
proof (induction "nbc - i_v s" arbitrary: s)
  case 0
  then have "scan_loop be fl inc pnb es nbc s = Inr s"
    by (simp add: scan_loop_step)
  with 0 show ?case by simp
next
  case (Suc n)
  then have lt: "i_v s < nbc" by simp
  let ?s1 = "scan_read fl inc pnb es s"
  have r: "read_inv fl inc pnb es L ?s1"
    using scan_read_inv[OF g Suc.prems(1) lt] .
  have i1: "i_v ?s1 = i_v s"
    by (simp_all add: scan_read_fields)
  have m: "load32 be (slice (curr_v ?s1) 4 (page_v ?s1)) = slot_magic be fl inc (i_v s)"
    and c: "load32 be (slice (curr_v ?s1 + 4) 4 (page_v ?s1)) = slot_count be fl inc (i_v s)"
    using read_inv_fields[OF r] i1 by simp_all
  let ?s2 = "?s1\<lparr>last_count_v := sint (slot_count be fl inc (i_v s)), i_v := i_v ?s1 + 1\<rparr>"
  have eq: "scan_loop be fl inc pnb es nbc s =
     (if slot_magic be fl inc (i_v s) \<noteq> BOOTCOUNT_MAGIC \<and> slot_magic be fl inc (i_v s) \<noteq> 0xffffffff
      then Inl (- 3)
      else if slot_magic be fl inc (i_v s) = 0xffffffff then Inr ?s1
      else scan_loop be fl inc pnb es nbc ?s2)"
    using lt m c i1 by (subst scan_loop_step) (simp add: Let_def)
  show ?case
  proof (cases "slot_magic be fl inc (i_v s) = BOOTCOUNT_MAGIC")
    case False
    then have "slot_magic be fl inc (i_v s) \<noteq> 0xffffffff" and "r = - 3"
      using eq Suc.prems(3) by (auto split: if_splits)
    then show ?thesis using False lt by (intro conjI exI[of _ "i_v s"]) auto
  next
    case True
    then have rec: "scan_loop be fl inc pnb es nbc ?s2 = Inl r"
      using eq Suc.prems(3) by (auto split: if_splits)
    have h2: "head_inv fl inc pnb es L ?s2" using read_to_head[OF g(2) r] .
    have i2: "i_v ?s2 = Suc (i_v s)" using i1 by simp
    have n2: "n = nbc - i_v ?s2" using Suc.hyps(2) i2 by simp
    have le2: "i_v ?s2 \<le> nbc" using lt i2 by simp
    from Suc.hyps(1)[OF n2 h2 le2 rec] obtain k where
      r3: "r = - 3" and k: "Suc (i_v s) \<le> k" "k < nbc"
      and pre: "\<forall>j. Suc (i_v s) \<le> j \<and> j < k \<longrightarrow> slot_magic be fl inc j = BOOTCOUNT_MAGIC"
      and bad: "slot_magic be fl inc k \<noteq> BOOTCOUNT_MAGIC" "slot_magic be fl inc k \<noteq> 0xffffffff"
      unfolding i2 by blast
    have "slot_magic be fl inc j = BOOTCOUNT_MAGIC" if "i_v s \<le> j" "j < k" for j
      using that pre True by (cases "j = i_v s") auto
    then show ?thesis using r3 k bad by (intro conjI exI[of _ k]) auto
  qed
qed

lemma scan_loop_code:
  "scan_loop be fl inc pnb es nbc s = Inl x \<Longrightarrow> x = - 3"
proof (induction "nbc - i_v s" arbitrary: s)
  case 0
  then show ?case by (simp add: scan_loop_step)
next
  case (Suc n)
  then have lt: "i_v s < nbc" by simp
  let ?s1 = "scan_read fl inc pnb es s"
  let ?m = "load32 be (slice (curr_v ?s1) 4 (page_v ?s1))"
  let ?s2 = "?s1\<lparr>last_count_v := sint (load32 be (slice (curr_v ?s1 + 4) 4 (page_v ?s1))),
                  i_v := i_v s + 1\<rparr>"
  have eq: "scan_loop be fl inc pnb es nbc s =
     (if ?m \<noteq> BOOTCOUNT_MAGIC \<and> ?m \<noteq> 0xffffffff then Inl (- 3)
      else if ?m = 0xffffffff then Inr ?s1
      else scan_loop be fl inc pnb es nbc ?s2)"
    using lt by (subst scan_loop_step) (simp add: Let_def)
  show ?case
  proof (cases "?m \<noteq> BOOTCOUNT_MAGIC \<and> ?m \<noteq> 0xffffffff")
    case True
    then show ?thesis using eq Suc.prems by simp
  next
    case False
    then have m: "?m = BOOTCOUNT_MAGIC \<or> ?m = 0xffffffff" by blast
    have ne: "?m \<noteq> 0xffffffff"
    proof
      assume "?m = 0xffffffff"
      then show False using eq Suc.prems by simp
    qed
    then have rec: "scan_loop be fl inc pnb es nbc ?s2 = Inl x"
      using eq m Suc.prems by simp
    have "n = nbc - i_v ?s2" using Suc.hyps(2) by simp
    then show ?thesis using Suc.hyps(1) rec by blast
  qed
qed

lemma scan_loop_untouched:
  assumes g: "12 \<le> inc" "0 < pnb" "pnb * inc \<le> L" and o: "12 \<le> o' mod inc"
  shows "page_len_v s < pnb \<Longrightarrow> length (page_v s) = L \<Longrightarrow>
         scan_loop be fl inc pnb es nbc s = Inr s' \<Longrightarrow> page_v s' ! o' = page_v s ! o'"
proof (induction "nbc - i_v s" arbitrary: s)
  case 0
  then show ?case by (simp add: scan_loop_step)
next
  case (Suc n)
  then have lt: "i_v s < nbc" by simp
  let ?s1 = "scan_read fl inc pnb es s"
  let ?m = "load32 be (slice (curr_v ?s1) 4 (page_v ?s1))"
  let ?s2 = "?s1\<lparr>last_count_v := sint (load32 be (slice (curr_v ?s1 + 4) 4 (page_v ?s1))),
                  i_v := i_v s + 1\<rparr>"
  note u = scan_read_untouched[OF g(1,3) Suc.prems(1,2) o, of fl es]
  have eq: "scan_loop be fl inc pnb es nbc s =
     (if ?m \<noteq> BOOTCOUNT_MAGIC \<and> ?m \<noteq> 0xffffffff then Inl (- 3)
      else if ?m = 0xffffffff then Inr ?s1
      else scan_loop be fl inc pnb es nbc ?s2)"
    using lt by (subst scan_loop_step) (simp add: Let_def)
  show ?case
  proof (cases "?m = 0xffffffff")
    case True
    then have "s' = ?s1" using eq Suc.prems(3) by simp
    then show ?thesis using u(1) by simp
  next
    case False
    then have rec: "scan_loop be fl inc pnb es nbc ?s2 = Inr s'"
      using eq Suc.prems(3) by (auto split: if_splits)
    have pl2: "page_len_v ?s2 < pnb"
      using Suc.prems(1) g(2) by (simp add: scan_read_def)
    have l2: "length (page_v ?s2) = L" using u(2) by simp
    have n2: "n = nbc - i_v ?s2" using Suc.hyps(2) by simp
    have "page_v s' ! o' = page_v ?s2 ! o'"
      using Suc.hyps(1)[OF n2 pl2 l2 rec] .
    then show ?thesis using u(1) by simp
  qed
qed

lemma first_unwritten_unique:
  assumes "\<forall>j<k. slot_magic be fl inc j = BOOTCOUNT_MAGIC" "slot_magic be fl inc k \<noteq> BOOTCOUNT_MAGIC"
    and "\<forall>j<k'. slot_magic be fl inc j = BOOTCOUNT_MAGIC" "slot_magic be fl inc k' \<noteq> BOOTCOUNT_MAGIC"
  shows "k = k'"
  using assms by (metis linorder_neqE_nat)

lemma scan_free_slot:
  assumes g: "12 \<le> inc" "0 < pnb" "pnb * inc \<le> L" "nbc * inc \<le> length fl"
    and h: "head_inv fl inc pnb es L s" and z: "i_v s = 0"
    and p: "written_prefix be fl inc k" and k: "k < nbc"
    and f: "slot_magic be fl inc k = 0xffffffff"
  shows "\<exists>s'. scan_loop be fl inc pnb es nbc s = Inr s' \<and> i_v s' = k \<and>
           read_inv fl inc pnb es L s' \<and>
           last_count_v s' = (if k = 0 then last_count_v s else sint (slot_count be fl inc (k - 1)))"
proof (cases "scan_loop be fl inc pnb es nbc s")
  case (Inl r)
  from scan_loop_Inl[OF g h _ Inl] z obtain k' where
    a: "\<forall>j<k'. slot_magic be fl inc j = BOOTCOUNT_MAGIC"
    and b: "slot_magic be fl inc k' \<noteq> BOOTCOUNT_MAGIC"
    and c: "slot_magic be fl inc k' \<noteq> 0xffffffff"
    by auto
  have pk: "\<forall>j<k. slot_magic be fl inc j = BOOTCOUNT_MAGIC"
    using p by (simp add: written_prefix_iff)
  have nk: "slot_magic be fl inc k \<noteq> BOOTCOUNT_MAGIC"
    using f magic_not_erased by simp
  have "k = k'" using first_unwritten_unique[OF pk nk a b] .
  then show ?thesis using f c by simp
next
  case (Inr s')
  have post: "exit_post be fl inc pnb es nbc L s s'"
    using scan_loop_Inr[OF g h _ Inr] z by simp
  have pre': "\<forall>j<i_v s'. slot_magic be fl inc j = BOOTCOUNT_MAGIC"
    using post z by (simp add: exit_post_def)
  have pk: "\<forall>j<k. slot_magic be fl inc j = BOOTCOUNT_MAGIC"
    using p by (simp add: written_prefix_iff)
  have nk: "slot_magic be fl inc k \<noteq> BOOTCOUNT_MAGIC"
    using f magic_not_erased by simp
  have lt: "i_v s' < nbc"
  proof (rule ccontr)
    assume "\<not> i_v s' < nbc"
    then have "k < i_v s'" using k by simp
    then show False using pre' nk by simp
  qed
  then have e: "slot_magic be fl inc (i_v s') = 0xffffffff"
    and r: "read_inv fl inc pnb es L s'"
    using post by (simp_all add: exit_post_def)
  have ns: "slot_magic be fl inc (i_v s') \<noteq> BOOTCOUNT_MAGIC"
    using e magic_not_erased by simp
  have ik: "i_v s' = k" using first_unwritten_unique[OF pre' ns pk nk] .
  have "last_count_v s' = (if k = 0 then last_count_v s else sint (slot_count be fl inc (k - 1)))"
    using post z ik by (simp add: exit_post_def)
  then show ?thesis using Inr ik r by simp
qed

lemma scan_full_log:
  assumes g: "12 \<le> inc" "0 < pnb" "pnb * inc \<le> L" "nbc * inc \<le> length fl"
    and h: "head_inv fl inc pnb es L s" and z: "i_v s = 0"
    and p: "written_prefix be fl inc nbc"
  shows "\<exists>s'. scan_loop be fl inc pnb es nbc s = Inr s' \<and> i_v s' = nbc \<and>
           head_inv fl inc pnb es L s' \<and>
           last_count_v s' = (if nbc = 0 then last_count_v s else sint (slot_count be fl inc (nbc - 1)))"
proof (cases "scan_loop be fl inc pnb es nbc s")
  case (Inl r)
  from scan_loop_Inl[OF g h _ Inl] z obtain k' where
    "k' < nbc" "slot_magic be fl inc k' \<noteq> BOOTCOUNT_MAGIC"
    by auto
  then show ?thesis using p by (simp add: written_prefix_iff)
next
  case (Inr s')
  have post: "exit_post be fl inc pnb es nbc L s s'"
    using scan_loop_Inr[OF g h _ Inr] z by simp
  have n: "i_v s' = nbc"
  proof (rule ccontr)
    assume "i_v s' \<noteq> nbc"
    then have lt: "i_v s' < nbc" using post by (simp add: exit_post_def)
    then have "slot_magic be fl inc (i_v s') = 0xffffffff"
      using post by (simp add: exit_post_def)
    moreover have "slot_magic be fl inc (i_v s') = BOOTCOUNT_MAGIC"
      using p lt by (simp add: written_prefix_iff)
    ultimately show False using magic_not_erased by simp
  qed
  then have "head_inv fl inc pnb es L s'"
    and "last_count_v s' = (if nbc = 0 then last_count_v s else sint (slot_count be fl inc (nbc - 1)))"
    using post z by (simp_all add: exit_post_def)
  then show ?thesis using Inr n by simp
qed

lemma scan_corrupt:
  assumes g: "12 \<le> inc" "0 < pnb" "pnb * inc \<le> L" "nbc * inc \<le> length fl"
    and h: "head_inv fl inc pnb es L s" and z: "i_v s = 0"
    and p: "written_prefix be fl inc k" and k: "k < nbc"
    and c: "slot_magic be fl inc k \<noteq> BOOTCOUNT_MAGIC" "slot_magic be fl inc k \<noteq> 0xffffffff"
  shows "scan_loop be fl inc pnb es nbc s = Inl (- 3)"
proof (cases "scan_loop be fl inc pnb es nbc s")
  case (Inl r)
  then show ?thesis using scan_loop_Inl[OF g h _ Inl] z by simp
next
  case (Inr s')
  have post: "exit_post be fl inc pnb es nbc L s s'"
    using scan_loop_Inr[OF g h _ Inr] z by simp
  have pre': "\<forall>j<i_v s'. slot_magic be fl inc j = BOOTCOUNT_MAGIC"
    using post z by (simp add: exit_post_def)
  have pk: "\<forall>j<k. slot_magic be fl inc j = BOOTCOUNT_MAGIC"
    using p by (simp add: written_prefix_iff)
  have lt: "i_v s' < nbc"
  proof (rule ccontr)
    assume "\<not> i_v s' < nbc"
    then have "k < i_v s'" using k by simp
    then show False using pre' c(1) by simp
  qed
  then have e: "slot_magic be fl inc (i_v s') = 0xffffffff"
    using post by (simp_all add: exit_post_def)
  have ns: "slot_magic be fl inc (i_v s') \<noteq> BOOTCOUNT_MAGIC"
    using e magic_not_erased by simp
  have ik: "i_v s' = k" using first_unwritten_unique[OF pre' ns pk c(1)] .
  then show ?thesis using e c(2) by simp
qed

section \<open>The scan of a device\<close>

text \<open>The same facts for the scan that \<open>mtd_resetbc\<close> runs on a device.\<close>

lemma prefix_fits:
  assumes "reaches_scan d mi" "n \<le> unat (num_bc mi)"
  shows "n * unat (bc_offset_increment mi) \<le> length (flash d)"
proof -
  have a: "n * unat (bc_offset_increment mi) \<le> unat (num_bc mi) * unat (bc_offset_increment mi)"
    by (rule mult_le_mono1[OF assms(2)])
  have b: "unat (num_bc mi) * unat (bc_offset_increment mi) \<le> length (flash d)"
    using assms(1) layout_bounds(4)[of mi] by (simp add: reaches_scan_def)
  show ?thesis using a b by (rule le_trans)
qed

lemma dev_written_prefix_0: "dev_written_prefix d mi 0"
  by (simp add: dev_written_prefix_def written_prefix_def)

lemma dev_written_prefix_Suc:
  "dev_written_prefix d mi (Suc k) \<longleftrightarrow>
     dev_written_prefix d mi k \<and> dev_magic d mi k = BOOTCOUNT_MAGIC"
  by (simp add: dev_written_prefix_def written_prefix_def dev_magic_def)

lemma prefix_1: "dev_written_prefix d mi 1 \<longleftrightarrow> dev_magic d mi 0 = BOOTCOUNT_MAGIC"
  unfolding One_nat_def dev_written_prefix_Suc by (simp add: dev_written_prefix_0)

lemma prefix_2: "dev_written_prefix d mi 2 \<longleftrightarrow>
    dev_magic d mi 0 = BOOTCOUNT_MAGIC \<and> dev_magic d mi 1 = BOOTCOUNT_MAGIC"
  unfolding numeral_2_eq_2 dev_written_prefix_Suc by (simp add: dev_written_prefix_0)

lemma prefix_4: "dev_written_prefix d mi 4 \<longleftrightarrow>
    dev_magic d mi 0 = BOOTCOUNT_MAGIC \<and> dev_magic d mi 1 = BOOTCOUNT_MAGIC \<and>
    dev_magic d mi 2 = BOOTCOUNT_MAGIC \<and> dev_magic d mi 3 = BOOTCOUNT_MAGIC"
proof -
  have a: "dev_written_prefix d mi 3 \<longleftrightarrow>
      dev_written_prefix d mi 2 \<and> dev_magic d mi 2 = BOOTCOUNT_MAGIC"
    using dev_written_prefix_Suc[of d mi 2] by simp
  have b: "dev_written_prefix d mi 4 \<longleftrightarrow>
      dev_written_prefix d mi 3 \<and> dev_magic d mi 3 = BOOTCOUNT_MAGIC"
    using dev_written_prefix_Suc[of d mi 3] by simp
  show ?thesis unfolding b a prefix_2 by simp
qed

lemma dev_scan_free:
  assumes r: "reaches_scan d mi" and p: "dev_written_prefix d mi k"
    and k: "k < unat (num_bc mi)" and f: "dev_magic d mi k = 0xffffffff"
  shows "\<exists>s. dev_scan d mi = Inr s \<and> i_v s = k \<and>
           read_inv (flash d) (unat (bc_offset_increment mi)) (unat (page_num_bc mi))
             (unat (erase_size mi)) (unat (erase_size mi)) s \<and>
           last_count_v s = sint (dev_last_count d mi k)"
proof -
  have len: "unat (num_bc mi) * unat (bc_offset_increment mi) \<le> length (flash d)"
    using r layout_bounds(4)[of mi] by (simp add: reaches_scan_def)
  have z: "i_v (scan_init d (unat (erase_size mi))) = 0"
    and l0: "last_count_v (scan_init d (unat (erase_size mi))) = 0"
    by (simp_all add: scan_init_def)
  show ?thesis
    using scan_free_slot[OF layout_bounds(1-3) len head_inv_init z
        p[unfolded dev_written_prefix_def] k f[unfolded dev_magic_def]]
    unfolding dev_scan_def scan_prefix_def dev_last_count_def last_written_count_def l0
    by auto
qed

lemma dev_scan_full:
  assumes r: "reaches_scan d mi" and p: "dev_written_prefix d mi (unat (num_bc mi))"
  shows "\<exists>s. dev_scan d mi = Inr s \<and> i_v s = unat (num_bc mi) \<and>
           head_inv (flash d) (unat (bc_offset_increment mi)) (unat (page_num_bc mi))
             (unat (erase_size mi)) (unat (erase_size mi)) s \<and>
           last_count_v s = sint (dev_last_count d mi (unat (num_bc mi)))"
proof -
  have len: "unat (num_bc mi) * unat (bc_offset_increment mi) \<le> length (flash d)"
    using r layout_bounds(4)[of mi] by (simp add: reaches_scan_def)
  have z: "i_v (scan_init d (unat (erase_size mi))) = 0"
    and l0: "last_count_v (scan_init d (unat (erase_size mi))) = 0"
    by (simp_all add: scan_init_def)
  show ?thesis
    using scan_full_log[OF layout_bounds(1-3) len head_inv_init z
        p[unfolded dev_written_prefix_def]]
    unfolding dev_scan_def scan_prefix_def dev_last_count_def last_written_count_def l0
    by auto
qed

lemma dev_scan_corrupt:
  assumes r: "reaches_scan d mi" and p: "dev_written_prefix d mi k"
    and k: "k < unat (num_bc mi)"
    and c: "dev_magic d mi k \<noteq> BOOTCOUNT_MAGIC" "dev_magic d mi k \<noteq> 0xffffffff"
  shows "dev_scan d mi = Inl (- 3)"
proof -
  have len: "unat (num_bc mi) * unat (bc_offset_increment mi) \<le> length (flash d)"
    using r layout_bounds(4)[of mi] by (simp add: reaches_scan_def)
  have z: "i_v (scan_init d (unat (erase_size mi))) = 0"
    by (simp_all add: scan_init_def)
  show ?thesis
    using scan_corrupt[OF layout_bounds(1-3) len head_inv_init z
        p[unfolded dev_written_prefix_def] k c[unfolded dev_magic_def]]
    unfolding dev_scan_def scan_prefix_def .
qed

lemma scan_prefix_cases:
  assumes r: "reaches_scan d mi" and k: "k < unat (num_bc mi)"
    and p: "dev_written_prefix d mi k"
  shows "dev_magic d mi k = 0xffffffff \<Longrightarrow>
           \<exists>s. scan_prefix d mi (Suc k) = Inr s \<and> i_v s = k"
    and "dev_magic d mi k = BOOTCOUNT_MAGIC \<Longrightarrow>
           \<exists>s. scan_prefix d mi (Suc k) = Inr s \<and> i_v s = Suc k \<and>
               last_count_v s = sint (dev_last_count d mi (Suc k))"
    and "dev_magic d mi k \<noteq> BOOTCOUNT_MAGIC \<Longrightarrow> dev_magic d mi k \<noteq> 0xffffffff \<Longrightarrow>
           scan_prefix d mi (Suc k) = Inl (- 3)"
proof -
  have len: "Suc k * unat (bc_offset_increment mi) \<le> length (flash d)"
    by (rule prefix_fits[OF r]) (use k in simp)
  have z: "i_v (scan_init d (unat (erase_size mi))) = 0"
    by (simp add: scan_init_def)
  note g = layout_bounds(1-3)[of mi] len
  show "\<exists>s. scan_prefix d mi (Suc k) = Inr s \<and> i_v s = k"
    if f: "dev_magic d mi k = 0xffffffff"
    using scan_free_slot[OF g head_inv_init z p[unfolded dev_written_prefix_def] _
        f[unfolded dev_magic_def]]
    unfolding scan_prefix_def by auto
  show "\<exists>s. scan_prefix d mi (Suc k) = Inr s \<and> i_v s = Suc k \<and>
           last_count_v s = sint (dev_last_count d mi (Suc k))"
    if m: "dev_magic d mi k = BOOTCOUNT_MAGIC"
  proof -
    have "dev_written_prefix d mi (Suc k)"
      using p m by (simp add: dev_written_prefix_Suc)
    then show ?thesis
      using scan_full_log[OF g head_inv_init z, of "big_endian d"]
      unfolding scan_prefix_def dev_written_prefix_def dev_last_count_def
        last_written_count_def
      by auto
  qed
  show "scan_prefix d mi (Suc k) = Inl (- 3)"
    if "dev_magic d mi k \<noteq> BOOTCOUNT_MAGIC" "dev_magic d mi k \<noteq> 0xffffffff"
    using scan_corrupt[OF g head_inv_init z p[unfolded dev_written_prefix_def] _
        that[unfolded dev_magic_def]]
    unfolding scan_prefix_def by simp
qed

lemma dev_scan_exit:
  assumes r: "reaches_scan d mi" and s: "dev_scan d mi = Inr s"
  shows "i_v s \<le> unat (num_bc mi)"
    and "i_v s < unat (num_bc mi) \<Longrightarrow>
           read_inv (flash d) (unat (bc_offset_increment mi)) (unat (page_num_bc mi))
             (unat (erase_size mi)) (unat (erase_size mi)) s"
    and "i_v s = unat (num_bc mi) \<Longrightarrow>
           head_inv (flash d) (unat (bc_offset_increment mi)) (unat (page_num_bc mi))
             (unat (erase_size mi)) (unat (erase_size mi)) s"
proof -
  have len: "unat (num_bc mi) * unat (bc_offset_increment mi) \<le> length (flash d)"
    by (rule prefix_fits[OF r]) simp
  have p: "exit_post (big_endian d) (flash d) (unat (bc_offset_increment mi))
     (unat (page_num_bc mi)) (unat (erase_size mi)) (unat (num_bc mi)) (unat (erase_size mi))
     (scan_init d (unat (erase_size mi))) s"
    using scan_loop_Inr[OF layout_bounds(1-3) len head_inv_init _
        s[unfolded dev_scan_def scan_prefix_def]]
    by (simp add: scan_init_def)
  show "i_v s \<le> unat (num_bc mi)" using p by (simp add: exit_post_def)
  show "read_inv (flash d) (unat (bc_offset_increment mi)) (unat (page_num_bc mi))
             (unat (erase_size mi)) (unat (erase_size mi)) s" if "i_v s < unat (num_bc mi)"
    using p that by (simp add: exit_post_def)
  show "head_inv (flash d) (unat (bc_offset_increment mi)) (unat (page_num_bc mi))
             (unat (erase_size mi)) (unat (erase_size mi)) s" if "i_v s = unat (num_bc mi)"
    using p that by (simp add: exit_post_def)
qed

lemma dev_scan_stops_free:
  assumes r: "reaches_scan d mi" and s: "dev_scan d mi = Inr s"
    and k: "i_v s < unat (num_bc mi)"
  shows "dev_magic d mi (i_v s) = 0xffffffff"
proof -
  have len: "unat (num_bc mi) * unat (bc_offset_increment mi) \<le> length (flash d)"
    by (rule prefix_fits[OF r]) simp
  have "exit_post (big_endian d) (flash d) (unat (bc_offset_increment mi))
     (unat (page_num_bc mi)) (unat (erase_size mi)) (unat (num_bc mi)) (unat (erase_size mi))
     (scan_init d (unat (erase_size mi))) s"
    using scan_loop_Inr[OF layout_bounds(1-3) len head_inv_init _ s[unfolded dev_scan_def scan_prefix_def]]
    by (simp add: scan_init_def)
  then show ?thesis using k by (simp add: exit_post_def dev_magic_def)
qed

lemma scanned_buffer:
  assumes r: "reaches_scan d mi" and s: "dev_scan d mi = Inr s"
    and j: "i_v s - i_v s mod unat (page_num_bc mi) \<le> j" "j \<le> i_v s" "j < unat (num_bc mi)"
  shows "slice ((j mod unat (page_num_bc mi)) * unat (bc_offset_increment mi)) 12 (page_v s) =
         slice (j * unat (bc_offset_increment mi)) 12 (flash d)"
proof -
  let ?pnb = "unat (page_num_bc mi)" and ?inc = "unat (bc_offset_increment mi)"
  let ?b = "i_v s - i_v s mod ?pnb"
  note ix = block_slot_index[OF layout_bounds(2) j(1,2)]
  have jb: "?b + (j - ?b) = j" using j(1) by simp
  show ?thesis
  proof (cases "i_v s < unat (num_bc mi)")
    case True
    have "\<forall>j\<le>i_v s mod ?pnb. slice (j * ?inc) 12 (page_v s) = slice ((?b + j) * ?inc) 12 (flash d)"
      using dev_scan_exit(2)[OF r s True] by (simp add: read_inv_def)
    then have "slice ((j - ?b) * ?inc) 12 (page_v s) = slice ((?b + (j - ?b)) * ?inc) 12 (flash d)"
      using ix(2) by blast
    then show ?thesis unfolding ix(1) jb .
  next
    case False
    then have e: "i_v s = unat (num_bc mi)" using dev_scan_exit(1)[OF r s] by simp
    have h: "head_inv (flash d) ?inc ?pnb (unat (erase_size mi)) (unat (erase_size mi)) s"
      using dev_scan_exit(3)[OF r s e] .
    have pl: "page_len_v s = i_v s mod ?pnb" using h by (simp add: head_inv_def)
    have "\<forall>j<i_v s mod ?pnb. slice (j * ?inc) 12 (page_v s) = slice ((?b + j) * ?inc) 12 (flash d)"
      using h unfolding head_inv_def pl by simp
    moreover have "j - ?b < i_v s mod ?pnb" using j e by simp
    ultimately have "slice ((j - ?b) * ?inc) 12 (page_v s) = slice ((?b + (j - ?b)) * ?inc) 12 (flash d)"
      by blast
    then show ?thesis unfolding ix(1) jb .
  qed
qed

lemma visit_reads_record:
  assumes r: "reaches_scan d mi" and p: "dev_written_prefix d mi k"
    and k: "k < unat (num_bc mi)" and i: "i \<le> k"
  shows "\<exists>s. scan_prefix d mi i = Inr s \<and> i_v s = i \<and>
           page_v (scan_read (flash d) (unat (bc_offset_increment mi)) (unat (page_num_bc mi))
                     (unat (erase_size mi)) s) =
           poke (page_v s) ((i mod unat (page_num_bc mi)) * unat (bc_offset_increment mi))
             (slice (i * unat (bc_offset_increment mi)) 12 (flash d))"
proof -
  have len: "i * unat (bc_offset_increment mi) \<le> length (flash d)"
    by (rule prefix_fits[OF r]) (use i k in simp)
  have z: "i_v (scan_init d (unat (erase_size mi))) = 0"
    by (simp add: scan_init_def)
  have pi: "written_prefix (big_endian d) (flash d) (unat (bc_offset_increment mi)) i"
    using p i unfolding dev_written_prefix_def written_prefix_iff by simp
  from scan_full_log[OF layout_bounds(1-3) len head_inv_init z pi]
  obtain s where s: "scan_prefix d mi i = Inr s" and iv: "i_v s = i"
    and h: "head_inv (flash d) (unat (bc_offset_increment mi)) (unat (page_num_bc mi))
             (unat (erase_size mi)) (unat (erase_size mi)) s"
    unfolding scan_prefix_def by blast
  have pl: "page_len_v s = i mod unat (page_num_bc mi)"
    using h iv by (simp add: head_inv_def)
  show ?thesis
    using s iv pl by (intro exI[of _ s]) (simp add: scan_read_def pread_def sizeof_bootcounter_def)
qed

lemma dev_scan_padding:
  assumes s: "dev_scan d mi = Inr s"
    and o: "12 \<le> o' mod unat (bc_offset_increment mi)" "o' < unat (erase_size mi)"
  shows "page_v s ! o' = heap d o'"
proof -
  have a: "page_len_v (scan_init d (unat (erase_size mi))) < unat (page_num_bc mi)"
    using layout_bounds(2)[of mi] by (simp add: scan_init_def)
  have b: "length (page_v (scan_init d (unat (erase_size mi)))) = unat (erase_size mi)"
    by (simp add: scan_init_def)
  have "page_v s ! o' = page_v (scan_init d (unat (erase_size mi))) ! o'"
    using scan_loop_untouched[OF layout_bounds(1-3) o(1) a b
        s[unfolded dev_scan_def scan_prefix_def]] .
  then show ?thesis using o(2) by (simp add: scan_init_def)
qed

lemma corrupt_magic_seen_iff:
  "corrupt_magic_seen d mi \<longleftrightarrow>
     (\<exists>k<unat (num_bc mi). dev_written_prefix d mi k \<and> dev_magic d mi k \<noteq> BOOTCOUNT_MAGIC \<and>
        dev_magic d mi k \<noteq> 0xffffffff)"
  by (auto simp: corrupt_magic_seen_def list_ex_iff)

lemma dev_scan_Inl:
  assumes r: "reaches_scan d mi" and s: "dev_scan d mi = Inl x"
  shows "x = - 3 \<and> corrupt_magic_seen d mi"
proof -
  have len: "unat (num_bc mi) * unat (bc_offset_increment mi) \<le> length (flash d)"
    by (rule prefix_fits[OF r]) simp
  from scan_loop_Inl[OF layout_bounds(1-3) len head_inv_init _
      s[unfolded dev_scan_def scan_prefix_def]]
  obtain k where "x = - 3" "k < unat (num_bc mi)"
    "\<forall>j<k. dev_magic d mi j = BOOTCOUNT_MAGIC"
    "dev_magic d mi k \<noteq> BOOTCOUNT_MAGIC" "dev_magic d mi k \<noteq> 0xffffffff"
    by (auto simp: scan_init_def dev_magic_def)
  then show ?thesis
    unfolding corrupt_magic_seen_iff dev_written_prefix_def written_prefix_iff dev_magic_def
    by blast
qed

lemma dev_scan_Inl_iff:
  assumes r: "reaches_scan d mi"
  shows "isl (dev_scan d mi) \<longleftrightarrow> corrupt_magic_seen d mi"
proof
  assume "isl (dev_scan d mi)"
  then obtain x where "dev_scan d mi = Inl x" by (cases "dev_scan d mi") auto
  then show "corrupt_magic_seen d mi" using dev_scan_Inl[OF r] by blast
next
  assume "corrupt_magic_seen d mi"
  then obtain k where "k < unat (num_bc mi)" "dev_written_prefix d mi k"
    "dev_magic d mi k \<noteq> BOOTCOUNT_MAGIC" "dev_magic d mi k \<noteq> 0xffffffff"
    unfolding corrupt_magic_seen_iff by blast
  then show "isl (dev_scan d mi)" using dev_scan_corrupt[OF r, of k] by simp
qed

section \<open>The paths through the function\<close>

text \<open>
  The result of \<open>mtd_resetbc\<close> on each path: no geometry, no memory, corrupt
  magic, counter already zero, full log, free slot.
\<close>

lemma resetbc_reaches:
  assumes "reaches_scan d mi"
  shows "mtd_resetbc d =
     (case dev_scan d mi of
        Inl r \<Rightarrow> \<lparr>retval = r, flash_after = flash d, calls = [], cleanup = Freed\<rparr>
      | Inr s \<Rightarrow> erase_and_write d mi s)"
  using assms by (simp add: mtd_resetbc_def reaches_scan_def split: sum.split)

lemma resetbc_run_cases:
  obtains (nogeom) "geometry d = None"
      "mtd_resetbc d = \<lparr>retval = - 1, flash_after = flash d, calls = [],
                         cleanup = Uninitialised_read\<rparr>"
    | (nomem) mi where "geometry d = Some mi" "\<not> malloc_ok d"
      "mtd_resetbc d = \<lparr>retval = - 2, flash_after = flash d, calls = [],
                         cleanup = Nothing_freed\<rparr>"
    | (corrupt) mi where "geometry d = Some mi" "malloc_ok d" "dev_scan d mi = Inl (- 3)"
      "mtd_resetbc d = \<lparr>retval = - 3, flash_after = flash d, calls = [], cleanup = Freed\<rparr>"
    | (scanned) mi s where "geometry d = Some mi" "malloc_ok d" "dev_scan d mi = Inr s"
      "mtd_resetbc d = erase_and_write d mi s"
proof (cases "geometry d")
  case None
  then show ?thesis using nogeom by (simp add: mtd_resetbc_def)
next
  case (Some mi)
  show ?thesis
  proof (cases "malloc_ok d")
    case False
    then show ?thesis using nomem Some by (simp add: mtd_resetbc_def)
  next
    case True
    show ?thesis
    proof (cases "dev_scan d mi")
      case (Inl x)
      then have "x = - 3"
        unfolding dev_scan_def scan_prefix_def by (rule scan_loop_code)
      then show ?thesis using corrupt Some True Inl by (simp add: mtd_resetbc_def)
    next
      case (Inr s)
      then show ?thesis using scanned Some True by (simp add: mtd_resetbc_def)
    qed
  qed
qed

lemma erase_and_write_codes:
  "retval (erase_and_write d mi s) \<in> {0, - 4, - 5, - 6}"
  "retval (erase_and_write d mi s) = - 4 \<longleftrightarrow>
     list_ex (erase_failed Whole_device) (calls (erase_and_write d mi s))"
  "retval (erase_and_write d mi s) = - 5 \<longleftrightarrow>
     list_ex (erase_failed Single_block) (calls (erase_and_write d mi s))"
  "retval (erase_and_write d mi s) = - 6 \<longleftrightarrow>
     list_ex write_failed (calls (erase_and_write d mi s))"
  by (simp_all add: erase_and_write_def write_back_def Let_def erase_failed_def
      write_failed_def)

lemma erase_and_write_pwrite:
  assumes "Pwrite off bs r \<in> set (calls (erase_and_write d mi s))"
  shows "r = pwrite_ret d \<and>
     (if r < 0 then retval (erase_and_write d mi s) = - 6 \<and>
                    Sync \<notin> set (calls (erase_and_write d mi s))
      else retval (erase_and_write d mi s) = 0 \<and>
           (\<exists>cs. calls (erase_and_write d mi s) = cs @ [Pwrite off bs r, Sync]))"
  using assms
  by (auto simp: erase_and_write_def write_back_def Let_def split: if_splits)

lemma write_back_calls:
  "calls (write_back d inc fl cs s) =
     cs @ Pwrite (erase_start_v s)
            (take (page_len_v s * inc) (reset_record (big_endian d) (page_v s) (curr_v s) inc))
            (pwrite_ret d) # (if pwrite_ret d < 0 then [] else [Sync])"
  by (simp add: write_back_def Let_def)

lemma write_back_zero_record:
  assumes "12 \<le> inc" "inc \<le> length (page_v s)"
  shows "write_back d inc fl cs (s\<lparr>i_v := 0, page_len_v := 1, erase_start_v := 0, curr_v := 0\<rparr>) =
    (if pwrite_ret d < 0 then
       \<lparr>retval = - 6, flash_after = fl,
        calls = cs @ [Pwrite 0 (zero_record (big_endian d) inc) (pwrite_ret d)], cleanup = Freed\<rparr>
     else
       \<lparr>retval = 0,
        flash_after = dev_write fl 0 (take (nat (pwrite_ret d)) (zero_record (big_endian d) inc)),
        calls = cs @ [Pwrite 0 (zero_record (big_endian d) inc) (pwrite_ret d), Sync],
        cleanup = Freed\<rparr>)"
proof -
  have "reset_record (big_endian d) (page_v s) 0 inc = poke (page_v s) 0 (zero_record (big_endian d) inc)"
    using assms by (intro reset_record_eq) simp_all
  then have "take inc (reset_record (big_endian d) (page_v s) 0 inc) = zero_record (big_endian d) inc"
    using assms by (simp add: poke_def length_zero_record)
  then show ?thesis by (simp add: write_back_def Let_def)
qed

lemma write_back_nothing:
  assumes "page_len_v s = 0" "0 \<le> pwrite_ret d"
  shows "write_back d inc fl cs s =
    \<lparr>retval = 0, flash_after = fl,
     calls = cs @ [Pwrite (erase_start_v s) [] (pwrite_ret d), Sync], cleanup = Freed\<rparr>"
  using assms by (simp add: write_back_def Let_def dev_write_nil)

lemma block_write_exact:
  assumes g: "12 \<le> inc" "0 < pnb" "pnb * inc \<le> es"
    and ri: "read_inv fl inc pnb es es s"
    and nw: "Suc (i_v s) mod pnb \<noteq> 0"
    and bs: "bs = take (page_len_v s * inc) (reset_record be (page_v s) (curr_v s) inc)"
  shows "length bs = (i_v s mod pnb + 1) * inc"
    and "\<forall>j<i_v s mod pnb.
           slice (j * inc) 12 bs = slice ((i_v s - i_v s mod pnb + j) * inc) 12 fl"
    and "slice (i_v s mod pnb * inc) inc bs = zero_record be inc"
    and "erase_start_v s = i_v s div pnb * es"
proof -
  let ?k = "i_v s" and ?p = "i_v s mod pnb"
  have pl: "page_len_v s = Suc ?k mod pnb" and st: "erase_start_v s = (Suc ?k div pnb) * es"
    and cu: "curr_v s = ?p * inc" and len: "length (page_v s) = es"
    and buf: "\<And>j. j \<le> ?p \<Longrightarrow>
       slice (j * inc) 12 (page_v s) = slice ((?k - ?p + j) * inc) 12 fl"
    using ri by (auto simp: read_inv_def)
  have plt: "?p < pnb" using g(2) by simp
  have cb: "?p * inc + inc \<le> es" using slot_bound[OF plt g(3)] .
  have rr: "reset_record be (page_v s) (curr_v s) inc = poke (page_v s) (?p * inc) (zero_record be inc)"
    unfolding cu using g(1) cb len by (intro reset_record_eq) simp_all
  have lz: "length (zero_record be inc) = inc" using g(1) by (rule length_zero_record)
  have lp: "length (poke (page_v s) (?p * inc) (zero_record be inc)) = es"
    using cb len lz by (simp add: length_poke)
  have ne: "Suc ?p \<noteq> pnb" and pl': "page_len_v s = Suc ?p"
    using pl nw by (auto simp: mod_Suc split: if_splits)
  show lb: "length bs = (?p + 1) * inc" unfolding bs rr pl' using lp cb by simp
  have dv: "Suc ?k div pnb = ?k div pnb" using ne by (simp add: div_Suc mod_Suc)
  show "erase_start_v s = ?k div pnb * es" unfolding st dv ..
  show "slice (?p * inc) inc bs = zero_record be inc"
  proof -
    have "slice (?p * inc) inc bs = slice (?p * inc) inc (poke (page_v s) (?p * inc) (zero_record be inc))"
      unfolding bs rr pl' by (intro slice_take) simp
    also have "\<dots> = slice 0 inc (zero_record be inc)"
      using slice_poke_inside[of "?p * inc" "zero_record be inc" "page_v s" 0 inc] cb len lz
      by simp
    also have "\<dots> = zero_record be inc" using lz by (rule slice_whole)
    finally show ?thesis .
  qed
  show "\<forall>j<?p. slice (j * inc) 12 bs = slice ((?k - ?p + j) * inc) 12 fl"
  proof (intro allI impI)
    fix j assume jp: "j < ?p"
    have "Suc j * inc \<le> ?p * inc" using jp by (intro mult_le_mono1) simp
    then have jb: "j * inc + 12 \<le> ?p * inc" using g(1) by simp
    have "slice (j * inc) 12 bs = slice (j * inc) 12 (poke (page_v s) (?p * inc) (zero_record be inc))"
      unfolding bs rr pl' using jb by (intro slice_take) simp
    also have "\<dots> = slice (j * inc) 12 (page_v s)"
      using cb len lz jb by (intro slice_poke_before) simp_all
    also have "\<dots> = slice ((?k - ?p + j) * inc) 12 fl"
      using buf[of j] jp by simp
    finally show "slice (j * inc) 12 bs = slice ((?k - ?p + j) * inc) 12 fl" .
  qed
qed

lemma resetbc_full_log:
  assumes r: "reaches_scan d mi" and p: "dev_written_prefix d mi (unat (num_bc mi))"
    and c: "dev_last_count d mi (unat (num_bc mi)) \<noteq> 0"
  shows "mtd_resetbc d =
    (if erase_ret d < 0 then
       \<lparr>retval = - 4, flash_after = flash d,
        calls = [MEMERASE Whole_device 0 (unat (size_mtd mi)) (erase_ret d)], cleanup = Freed\<rparr>
     else if pwrite_ret d < 0 then
       \<lparr>retval = - 6, flash_after = dev_erase (flash d) 0 (unat (size_mtd mi)),
        calls = [MEMERASE Whole_device 0 (unat (size_mtd mi)) (erase_ret d),
                 Pwrite 0 (zero_record (big_endian d) (unat (bc_offset_increment mi))) (pwrite_ret d)],
        cleanup = Freed\<rparr>
     else
       \<lparr>retval = 0,
        flash_after = dev_write (dev_erase (flash d) 0 (unat (size_mtd mi))) 0
          (take (nat (pwrite_ret d)) (zero_record (big_endian d) (unat (bc_offset_increment mi)))),
        calls = [MEMERASE Whole_device 0 (unat (size_mtd mi)) (erase_ret d),
                 Pwrite 0 (zero_record (big_endian d) (unat (bc_offset_increment mi))) (pwrite_ret d),
                 Sync],
        cleanup = Freed\<rparr>)"
proof -
  from dev_scan_full[OF r p] obtain s where s: "dev_scan d mi = Inr s"
    and i: "i_v s = unat (num_bc mi)"
    and h: "head_inv (flash d) (unat (bc_offset_increment mi)) (unat (page_num_bc mi))
             (unat (erase_size mi)) (unat (erase_size mi)) s"
    and l: "last_count_v s = sint (dev_last_count d mi (unat (num_bc mi)))"
    by blast
  have nz: "last_count_v s \<noteq> 0" using l c by (simp add: sint_eq_0)
  have len: "length (page_v s) = unat (erase_size mi)" using h by (simp add: head_inv_def)
  have le: "unat (bc_offset_increment mi) \<le> length (page_v s)"
    unfolding len by (simp add: erase_size_def word_less_nat_alt)
  show ?thesis
    unfolding resetbc_reaches[OF r] s
    using nz i write_back_zero_record[OF layout_bounds(1) le]
    by (simp add: erase_and_write_def Let_def)
qed

lemma resetbc_free_slot:
  assumes r: "reaches_scan d mi" and p: "dev_written_prefix d mi k"
    and k: "k < unat (num_bc mi)" and f: "dev_magic d mi k = 0xffffffff"
    and c: "dev_last_count d mi k \<noteq> 0"
  shows "\<exists>s. dev_scan d mi = Inr s \<and> i_v s = k \<and>
           read_inv (flash d) (unat (bc_offset_increment mi)) (unat (page_num_bc mi))
             (unat (erase_size mi)) (unat (erase_size mi)) s \<and>
           mtd_resetbc d =
             (if erase_ret d < 0 then
                \<lparr>retval = - 5, flash_after = flash d,
                 calls = [MEMERASE Single_block (erase_start_v s mod 2 ^ 32)
                            (unat (erase_size mi)) (erase_ret d)],
                 cleanup = Freed\<rparr>
              else
                write_back d (unat (bc_offset_increment mi))
                  (dev_erase (flash d) (erase_start_v s mod 2 ^ 32) (unat (erase_size mi)))
                  [MEMERASE Single_block (erase_start_v s mod 2 ^ 32)
                     (unat (erase_size mi)) (erase_ret d)] s)"
proof -
  from dev_scan_free[OF r p k f] obtain s where s: "dev_scan d mi = Inr s"
    and i: "i_v s = k"
    and ri: "read_inv (flash d) (unat (bc_offset_increment mi)) (unat (page_num_bc mi))
             (unat (erase_size mi)) (unat (erase_size mi)) s"
    and l: "last_count_v s = sint (dev_last_count d mi k)"
    by blast
  have nz: "last_count_v s \<noteq> 0" using l c by (simp add: sint_eq_0)
  have ne: "i_v s \<noteq> unat (num_bc mi)" using i k by simp
  have "mtd_resetbc d = erase_and_write d mi s"
    unfolding resetbc_reaches[OF r] s by simp
  then show ?thesis
    using nz ne i ri s by (intro exI[of _ s]) (simp add: erase_and_write_def Let_def)
qed

lemma free_slot_at_block_end:
  assumes r: "reaches_scan d mi" and p: "dev_written_prefix d mi k"
    and k: "k < unat (num_bc mi)" and f: "dev_magic d mi k = 0xffffffff"
    and c: "dev_last_count d mi k \<noteq> 0"
    and w: "Suc k mod unat (page_num_bc mi) = 0"
    and ok: "0 \<le> erase_ret d" "0 \<le> pwrite_ret d"
  shows "mtd_resetbc d =
    \<lparr>retval = 0,
     flash_after =
       dev_erase (flash d)
         ((Suc k div unat (page_num_bc mi) * unat (erase_size mi)) mod 2 ^ 32)
         (unat (erase_size mi)),
     calls =
       [MEMERASE Single_block
          ((Suc k div unat (page_num_bc mi) * unat (erase_size mi)) mod 2 ^ 32)
          (unat (erase_size mi)) (erase_ret d),
        Pwrite (Suc k div unat (page_num_bc mi) * unat (erase_size mi)) [] (pwrite_ret d),
        Sync],
     cleanup = Freed\<rparr>"
proof -
  from resetbc_free_slot[OF r p k f c] obtain s where i: "i_v s = k"
    and ri: "read_inv (flash d) (unat (bc_offset_increment mi)) (unat (page_num_bc mi))
             (unat (erase_size mi)) (unat (erase_size mi)) s"
    and run: "mtd_resetbc d =
       write_back d (unat (bc_offset_increment mi))
         (dev_erase (flash d) (erase_start_v s mod 2 ^ 32) (unat (erase_size mi)))
         [MEMERASE Single_block (erase_start_v s mod 2 ^ 32) (unat (erase_size mi))
            (erase_ret d)] s"
    using ok(1) by auto
  have pl: "page_len_v s = 0"
    and es: "erase_start_v s = Suc k div unat (page_num_bc mi) * unat (erase_size mi)"
    using ri i w by (simp_all add: read_inv_def)
  show ?thesis
    unfolding run write_back_nothing[OF pl ok(2)] es by simp
qed

lemma resetbc_block_write:
  assumes r: "reaches_scan d mi" and p: "dev_written_prefix d mi k"
    and k: "k < unat (num_bc mi)" and f: "dev_magic d mi k = 0xffffffff"
    and c: "dev_last_count d mi k \<noteq> 0"
    and nw: "Suc k mod unat (page_num_bc mi) \<noteq> 0"
  shows "\<exists>bs. filter (\<lambda>c. c \<noteq> Sync) (calls (mtd_resetbc d)) =
           MEMERASE Single_block
             ((k div unat (page_num_bc mi) * unat (erase_size mi)) mod 2 ^ 32)
             (unat (erase_size mi)) (erase_ret d) #
           (if erase_ret d < 0 then []
            else [Pwrite (k div unat (page_num_bc mi) * unat (erase_size mi)) bs
                    (pwrite_ret d)]) \<and>
         length bs = (k mod unat (page_num_bc mi) + 1) * unat (bc_offset_increment mi) \<and>
         (\<forall>j<k mod unat (page_num_bc mi).
            slice (j * unat (bc_offset_increment mi)) 12 bs =
            slice ((k - k mod unat (page_num_bc mi) + j) * unat (bc_offset_increment mi)) 12
              (flash d)) \<and>
         slice (k mod unat (page_num_bc mi) * unat (bc_offset_increment mi))
           (unat (bc_offset_increment mi)) bs =
         zero_record (big_endian d) (unat (bc_offset_increment mi))"
proof -
  let ?inc = "unat (bc_offset_increment mi)" and ?pnb = "unat (page_num_bc mi)"
  let ?es = "unat (erase_size mi)"
  from resetbc_free_slot[OF r p k f c] obtain s where i: "i_v s = k"
    and ri: "read_inv (flash d) ?inc ?pnb ?es ?es s"
    and run: "mtd_resetbc d =
             (if erase_ret d < 0 then
                \<lparr>retval = - 5, flash_after = flash d,
                 calls = [MEMERASE Single_block (erase_start_v s mod 2 ^ 32) ?es (erase_ret d)],
                 cleanup = Freed\<rparr>
              else
                write_back d ?inc
                  (dev_erase (flash d) (erase_start_v s mod 2 ^ 32) ?es)
                  [MEMERASE Single_block (erase_start_v s mod 2 ^ 32) ?es (erase_ret d)] s)"
    by blast
  define bs where "bs = take (page_len_v s * ?inc)
      (reset_record (big_endian d) (page_v s) (curr_v s) ?inc)"
  have nw': "Suc (i_v s) mod ?pnb \<noteq> 0" using nw i by simp
  note b = block_write_exact[OF layout_bounds(1-3) ri nw' bs_def, unfolded i]
  have cl: "filter (\<lambda>c. c \<noteq> Sync) (calls (mtd_resetbc d)) =
           MEMERASE Single_block ((k div ?pnb * ?es) mod 2 ^ 32) ?es (erase_ret d) #
           (if erase_ret d < 0 then []
            else [Pwrite (k div ?pnb * ?es) bs (pwrite_ret d)])"
    unfolding run using b(4) by (simp add: write_back_calls bs_def)
  show ?thesis
    using cl b(1-3) by (intro exI[of _ bs]) simp
qed

lemma result_codes_after_geometry:
  assumes "partition_sized d" and "geometry d = Some mi"
  shows "returned (mtd_resetbc d) = Some (retval (mtd_resetbc d)) \<and>
    retval (mtd_resetbc d) \<in> {0, - 2, - 3, - 4, - 5, - 6} \<and>
    (retval (mtd_resetbc d) = - 2 \<longleftrightarrow> \<not> malloc_ok d) \<and>
    (retval (mtd_resetbc d) = - 3 \<longleftrightarrow> malloc_ok d \<and> corrupt_magic_seen d mi) \<and>
    (retval (mtd_resetbc d) = - 4 \<longleftrightarrow>
       list_ex (erase_failed Whole_device) (calls (mtd_resetbc d))) \<and>
    (retval (mtd_resetbc d) = - 5 \<longleftrightarrow>
       list_ex (erase_failed Single_block) (calls (mtd_resetbc d))) \<and>
    (retval (mtd_resetbc d) = - 6 \<longleftrightarrow> list_ex write_failed (calls (mtd_resetbc d)))"
proof (cases d rule: resetbc_run_cases)
  case nogeom
  then show ?thesis using assms(2) by simp
next
  case (nomem mi')
  then show ?thesis using assms(2) by (simp add: returned_def)
next
  case (corrupt mi')
  then have mi: "mi' = mi" using assms(2) by simp
  have r: "reaches_scan d mi"
    using assms corrupt(2) by (simp add: partition_sized_def reaches_scan_def)
  have "corrupt_magic_seen d mi"
    using dev_scan_Inl_iff[OF r] corrupt(3) mi by simp
  then show ?thesis using corrupt by (simp add: returned_def)
next
  case (scanned mi' s)
  then have mi: "mi' = mi" using assms(2) by simp
  have r: "reaches_scan d mi"
    using assms scanned(2) by (simp add: partition_sized_def reaches_scan_def)
  have nc: "\<not> corrupt_magic_seen d mi"
    using dev_scan_Inl_iff[OF r] scanned(3) mi by simp
  have in4: "retval (erase_and_write d mi s) \<in> {0, - 4, - 5, - 6}"
    by (rule erase_and_write_codes(1))
  have cu: "cleanup (erase_and_write d mi s) = Freed"
    by (simp add: erase_and_write_def write_back_def Let_def)
  show ?thesis
    unfolding scanned(4) mi returned_def
    using in4 nc scanned(2) cu erase_and_write_codes(2-4)[of d mi s]
    by auto
qed

section \<open>The example devices\<close>

text \<open>The logs of the example devices, and the runs of the reset on them.\<close>

lemma small_layout:
  "unat (bc_offset_increment geometry_small) = 16"
  "unat (erase_size geometry_small) = 32"
  "unat (page_num_bc geometry_small) = 2"
  "unat (num_bc geometry_small) = 4"
  "unat (size_mtd geometry_small) = 64"
  by (simp_all add: geometry_small_def bc_offset_increment_def erase_size_def page_num_bc_def
      num_bc_def BC_OFFSET_INCREMENT_MIN_def)

lemma small_reaches: "length fl = 64 \<Longrightarrow> reaches_scan (dev_small fl er wr) geometry_small"
  by (simp add: reaches_scan_def dev_small_def small_layout)

lemma small_fields:
  "flash (dev_small fl er wr) = fl"
  "big_endian (dev_small fl er wr) = False"
  "erase_ret (dev_small fl er wr) = er"
  "pwrite_ret (dev_small fl er wr) = wr"
  by (simp_all add: dev_small_def)

lemma length_slots: "length (le_record n) = 16" "length erased_slot = 16"
  by (simp_all add: le_record_def erased_slot_def)

lemma load_le:
  "load32 False (take 4 (le_record n)) = BOOTCOUNT_MAGIC"
  "load32 False (take 4 (drop 4 (le_record n))) = ucast n"
  "load32 False (take 4 erased_slot) = 0xffffffff"
  by (simp_all add: le_record_def erased_slot_def replicate_4 load32_def word_rcat_def
      BOOTCOUNT_MAGIC_def)

lemma load_zeros: "load32 False (replicate 4 0) = 0"
  by (simp add: replicate_4 load32_def word_rcat_def)

lemma small_magic:
  assumes "length a = 16" "length b = 16" "length c = 16" "length e = 16"
  shows "dev_magic (dev_small (a @ b @ c @ e) er wr) geometry_small 0 = load32 False (take 4 a)"
    and "dev_magic (dev_small (a @ b @ c @ e) er wr) geometry_small (Suc 0) = load32 False (take 4 b)"
    and "dev_magic (dev_small (a @ b @ c @ e) er wr) geometry_small 2 = load32 False (take 4 c)"
    and "dev_magic (dev_small (a @ b @ c @ e) er wr) geometry_small 3 = load32 False (take 4 e)"
  using assms
  by (simp_all add: dev_magic_def small_fields small_layout slot_magic_def slice_def)

lemma small_last_count:
  assumes "length a = 16" "length b = 16" "length c = 16" "length e = 16"
  shows "dev_last_count (dev_small (a @ b @ c @ e) er wr) geometry_small 0 = 0"
    and "dev_last_count (dev_small (a @ b @ c @ e) er wr) geometry_small (Suc 0) = load32 False (take 4 (drop 4 a))"
    and "dev_last_count (dev_small (a @ b @ c @ e) er wr) geometry_small 2 = load32 False (take 4 (drop 4 b))"
    and "dev_last_count (dev_small (a @ b @ c @ e) er wr) geometry_small 3 = load32 False (take 4 (drop 4 c))"
    and "dev_last_count (dev_small (a @ b @ c @ e) er wr) geometry_small 4 = load32 False (take 4 (drop 4 e))"
  using assms
  by (simp_all add: dev_last_count_def last_written_count_def small_fields small_layout
      slot_count_def slice_def)

lemma small_reaches4:
  assumes "length a = 16" "length b = 16" "length c = 16" "length e = 16"
  shows "reaches_scan (dev_small (a @ b @ c @ e) er wr) geometry_small"
  using assms by (intro small_reaches) simp

lemmas small_prefix = prefix_1 prefix_2 prefix_4

lemma dev_zero_log:
  "reaches_scan dev_zero geometry_small"
  "dev_written_prefix dev_zero geometry_small 2"
  "dev_magic dev_zero geometry_small 2 = 0xffffffff"
  "dev_last_count dev_zero geometry_small 2 = 0"
  unfolding dev_zero_def small_prefix
  by (simp_all add: small_magic small_last_count small_reaches4 length_slots load_le)

lemma dev_corrupt_log:
  "reaches_scan dev_corrupt geometry_small"
  "dev_magic dev_corrupt geometry_small 0 = BOOTCOUNT_MAGIC"
  "dev_magic dev_corrupt geometry_small 1 = 0"
  unfolding dev_corrupt_def
  by (simp_all add: small_magic small_last_count small_reaches4 length_slots load_le
      load_zeros)

lemma dev_full_log:
  "reaches_scan dev_full geometry_small"
  "dev_written_prefix dev_full geometry_small 4"
  "dev_last_count dev_full geometry_small 4 = 4"
  unfolding dev_full_def small_prefix
  by (simp_all add: small_magic small_last_count small_reaches4 length_slots load_le)

lemma dev_full_run:
  "mtd_resetbc dev_full =
     \<lparr>retval = 0,
      flash_after = dev_write (dev_erase (flash dev_full) 0 64) 0 (take 5 (zero_record False 16)),
      calls = [MEMERASE Whole_device 0 64 0, Pwrite 0 (zero_record False 16) 5, Sync],
      cleanup = Freed\<rparr>"
  using resetbc_full_log[of dev_full geometry_small] dev_full_log
  by (simp add: small_layout dev_full_def small_fields)

lemma dev_last_slot_log:
  "reaches_scan dev_last_slot geometry_small"
  "dev_written_prefix dev_last_slot geometry_small 1"
  "dev_magic dev_last_slot geometry_small 1 = 0xffffffff"
  "dev_last_count dev_last_slot geometry_small 1 = 1"
  unfolding dev_last_slot_def small_prefix
  by (simp_all add: small_magic small_last_count small_reaches4 length_slots load_le)

lemma dev_last_slot_run:
  "mtd_resetbc dev_last_slot =
     \<lparr>retval = 0, flash_after = flash dev_last_slot,
      calls = [MEMERASE Single_block 32 32 0, Pwrite 32 [] 0, Sync], cleanup = Freed\<rparr>"
proof -
  from resetbc_free_slot[of dev_last_slot geometry_small 1] dev_last_slot_log
  obtain s where i: "i_v s = 1"
    and ri: "read_inv (flash dev_last_slot) 16 2 32 32 s"
    and run: "mtd_resetbc dev_last_slot =
       write_back dev_last_slot 16 (dev_erase (flash dev_last_slot) (erase_start_v s mod 2 ^ 32) 32)
         [MEMERASE Single_block (erase_start_v s mod 2 ^ 32) 32 0] s"
    by (auto simp: small_layout dev_last_slot_def small_fields)
  have pl: "page_len_v s = 0" and es: "erase_start_v s = 32"
    using ri i by (simp_all add: read_inv_def)
  have w0: "pwrite_ret dev_last_slot = 0"
    by (simp add: dev_last_slot_def small_fields)
  then have wr: "0 \<le> pwrite_ret dev_last_slot" by simp
  have "erased_slot @ erased_slot @ erased_slot = replicate 48 0xff"
    by (simp add: erased_slot_def replicate_add[symmetric])
  then have fl: "flash dev_last_slot = le_record 1 @ replicate 48 0xff"
    by (simp add: dev_last_slot_def small_fields)
  have er: "dev_erase (flash dev_last_slot) 32 32 = flash dev_last_slot"
    unfolding fl by (rule dev_erase_erased) (simp add: nth_append length_slots)
  show ?thesis
    unfolding run write_back_nothing[OF pl wr] es using er w0 by simp
qed

lemma dev_ff_magic_log:
  "reaches_scan dev_ff_magic geometry_small"
  "dev_magic dev_ff_magic geometry_small 0 = 0xffffffff"
proof -
  have l: "length ff_magic_slot = 16" by (simp add: ff_magic_slot_def)
  have m: "load32 False (take 4 ff_magic_slot) = 0xffffffff"
    by (simp add: ff_magic_slot_def load32_def word_rcat_def)
  show "reaches_scan dev_ff_magic geometry_small"
    unfolding dev_ff_magic_def using l by (simp add: small_reaches4 length_slots)
  show "dev_magic dev_ff_magic geometry_small 0 = 0xffffffff"
    unfolding dev_ff_magic_def using l m by (simp add: small_magic length_slots)
qed

lemma one_block_layout:
  "unat (bc_offset_increment geometry_one_block) = 16"
  "unat (erase_size geometry_one_block) = 64"
  "unat (page_num_bc geometry_one_block) = 4"
  "unat (num_bc geometry_one_block) = 4"
  "unat (size_mtd geometry_one_block) = 64"
  by (simp_all add: geometry_one_block_def bc_offset_increment_def erase_size_def
      page_num_bc_def num_bc_def BC_OFFSET_INCREMENT_MIN_def)

lemma dev_padding_fields:
  "geometry dev_padding = Some geometry_one_block"
  "flash dev_padding = le_record 1 @ erased_slot @ erased_slot @ erased_slot"
  "big_endian dev_padding = False" "malloc_ok dev_padding"
  "heap dev_padding = (\<lambda>_. 0xaa)" "erase_ret dev_padding = 0" "pwrite_ret dev_padding = 32"
  by (simp_all add: dev_padding_def)

lemma dev_padding_log:
  "reaches_scan dev_padding geometry_one_block"
  "dev_written_prefix dev_padding geometry_one_block 1"
  "dev_magic dev_padding geometry_one_block 1 = 0xffffffff"
  "dev_last_count dev_padding geometry_one_block 1 = 1"
proof -
  show "reaches_scan dev_padding geometry_one_block"
    by (simp add: reaches_scan_def dev_padding_fields one_block_layout length_slots)
  have "dev_magic dev_padding geometry_one_block 0 = BOOTCOUNT_MAGIC"
    by (simp add: dev_magic_def slot_magic_def slice_def dev_padding_fields one_block_layout
        length_slots load_le)
  then show "dev_written_prefix dev_padding geometry_one_block 1"
    unfolding prefix_1 .
  show "dev_magic dev_padding geometry_one_block 1 = 0xffffffff"
    by (simp add: dev_magic_def slot_magic_def slice_def dev_padding_fields one_block_layout
        length_slots load_le)
  show "dev_last_count dev_padding geometry_one_block 1 = 1"
    by (simp add: dev_last_count_def last_written_count_def slot_count_def slice_def
        dev_padding_fields one_block_layout length_slots load_le)
qed

lemma dev_padding_run:
  "\<exists>bs. mtd_resetbc dev_padding =
          \<lparr>retval = 0,
           flash_after = dev_write (dev_erase (flash dev_padding) 0 64) 0 bs,
           calls = [MEMERASE Single_block 0 64 0, Pwrite 0 bs 32, Sync], cleanup = Freed\<rparr> \<and>
        length bs = 32 \<and> bs ! 12 = 0xaa"
proof -
  from resetbc_free_slot[of dev_padding geometry_one_block 1] dev_padding_log
  obtain s where sc: "dev_scan dev_padding geometry_one_block = Inr s" and i: "i_v s = 1"
    and ri: "read_inv (flash dev_padding) 16 4 64 64 s"
    and run: "mtd_resetbc dev_padding =
       write_back dev_padding 16 (dev_erase (flash dev_padding) (erase_start_v s mod 2 ^ 32) 64)
         [MEMERASE Single_block (erase_start_v s mod 2 ^ 32) 64 0] s"
    by (auto simp: one_block_layout dev_padding_fields)
  have pl: "page_len_v s = 2" and es: "erase_start_v s = 0" and cu: "curr_v s = 16"
    and len: "length (page_v s) = 64"
    using ri i by (simp_all add: read_inv_def)
  let ?page = "reset_record False (page_v s) 16 16"
  let ?bs = "take 32 ?page"
  have rr: "?page = poke (page_v s) 16 (zero_record False 16)"
    using len by (intro reset_record_eq) simp_all
  have lz: "length (zero_record False 16) = 16" by (simp add: length_zero_record)
  have lp: "length ?page = 64" unfolding rr using len lz by (simp add: length_poke)
  have lb: "length ?bs = 32" using lp by simp
  have "page_v s ! 12 = heap dev_padding 12"
    using sc by (rule dev_scan_padding) (simp_all add: one_block_layout)
  then have p12: "page_v s ! 12 = 0xaa" by (simp add: dev_padding_fields)
  have "?page ! 12 = page_v s ! 12"
    unfolding rr using len lz by (intro nth_poke_outside) simp_all
  then have b12: "?bs ! 12 = 0xaa" using p12 by simp
  have "mtd_resetbc dev_padding =
          \<lparr>retval = 0,
           flash_after = dev_write (dev_erase (flash dev_padding) 0 64) 0 ?bs,
           calls = [MEMERASE Single_block 0 64 0, Pwrite 0 ?bs 32, Sync], cleanup = Freed\<rparr>"
    unfolding run
    using pl es cu lb by (simp add: write_back_def Let_def dev_padding_fields)
  then show ?thesis using lb b12 by blast
qed

section \<open>A free slot at the end of an erase block\<close>

text \<open>
  Claim C1. For every valid log whose last written record has a count above 0, a reset
  that returns 0 leaves a record with magic \<open>BOOTCOUNT_MAGIC\<close> and count 0 in the slot
  after the last written record, also when that slot is the last of its erase block.
  The code does not meet this there. On \<open>dev_last_slot\<close> (slots of 16 bytes, blocks of
  two slots, one record with count 1, so that the free slot 1 closes block 0) the loop
  has already advanced \<open>erase_start\<close> to 32 and reset \<open>page_len\<close> to 0 (lines 137-140)
  when it finds slot 1 free: the block at 32 is erased, \<open>pwrite\<close> is given 0 bytes, and
  the call returns 0 with the partition as it was, slot 1 still erased and the last
  count still 1. The same happens on every device whose first free slot closes its
  erase block (\<open>free_slot_at_block_end\<close>).
\<close>

theorem reset_skipped_at_block_end:
  "retval (mtd_resetbc dev_last_slot) = 0 \<and>
   calls (mtd_resetbc dev_last_slot) = [MEMERASE Single_block 32 32 0, Pwrite 32 [] 0, Sync] \<and>
   flash_after (mtd_resetbc dev_last_slot) = flash dev_last_slot \<and>
   slot_magic False (flash_after (mtd_resetbc dev_last_slot)) 16 1 = 0xffffffff \<and>
   slot_magic False (flash_after (mtd_resetbc dev_last_slot)) 16 1 \<noteq> BOOTCOUNT_MAGIC \<and>
   last_written_count False (flash_after (mtd_resetbc dev_last_slot)) 16 1 = 1"
proof -
  have m: "slot_magic False (flash dev_last_slot) 16 1 = 0xffffffff"
    using dev_last_slot_log(3)
    by (simp add: dev_magic_def small_layout dev_last_slot_def small_fields)
  have c: "last_written_count False (flash dev_last_slot) 16 1 = 1"
    using dev_last_slot_log(4)
    by (simp add: dev_last_count_def small_layout dev_last_slot_def small_fields)
  show ?thesis
    unfolding dev_last_slot_run using m c by (simp add: BOOTCOUNT_MAGIC_def)
qed

section \<open>A counter that is already zero\<close>

text \<open>
  Claim C2. For every valid log whose last written record has count 0, the empty log
  included, the reset returns 0 and issues no erase and no write: the partition is
  unchanged. The log is given by the number \<open>k\<close> of written records before the first
  free slot (\<open>k = num_bc\<close> when no slot is free); a free slot is recognised by its magic
  field, which covers the slots that are erased throughout.
\<close>

theorem already_zero_untouched:
  assumes "reaches_scan d mi"
    and "k \<le> unat (num_bc mi)"
    and "dev_written_prefix d mi k"
    and "k < unat (num_bc mi) \<longrightarrow> dev_magic d mi k = 0xffffffff"
    and "dev_last_count d mi k = 0"
  shows "retval (mtd_resetbc d) = 0 \<and> calls (mtd_resetbc d) = [] \<and>
         flash_after (mtd_resetbc d) = flash d"
proof -
  have "\<exists>s. dev_scan d mi = Inr s \<and> last_count_v s = 0"
  proof (cases "k < unat (num_bc mi)")
    case True
    then show ?thesis using dev_scan_free[OF assms(1,3) True] assms(4,5) by auto
  next
    case False
    then have "k = unat (num_bc mi)" using assms(2) by simp
    then show ?thesis using dev_scan_full[OF assms(1)] assms(3,5) by auto
  qed
  then obtain s where s: "dev_scan d mi = Inr s" and z: "last_count_v s = 0" by blast
  have "mtd_resetbc d = erase_and_write d mi s"
    unfolding resetbc_reaches[OF assms(1)] s by simp
  then show ?thesis using z by (simp add: erase_and_write_def)
qed

theorem already_zero_untouched_witness:
  "reaches_scan dev_zero geometry_small \<and> dev_written_prefix dev_zero geometry_small 2 \<and>
   dev_magic dev_zero geometry_small 2 = 0xffffffff \<and>
   dev_last_count dev_zero geometry_small 2 = 0 \<and>
   retval (mtd_resetbc dev_zero) = 0 \<and> calls (mtd_resetbc dev_zero) = [] \<and>
   flash_after (mtd_resetbc dev_zero) = flash dev_zero"
  using already_zero_untouched [of dev_zero geometry_small 2] dev_zero_log
  by (simp add: small_layout)

section \<open>A corrupt magic\<close>

text \<open>
  Claim C3. For every log in which some slot \<open>k\<close>, at or before the first slot whose
  magic is the erased pattern, has a magic that is neither \<open>BOOTCOUNT_MAGIC\<close> nor
  \<open>0xffffffff\<close>, the reset returns -3 and issues no erase and no write: the partition is
  unchanged.
\<close>

theorem corrupt_magic_untouched:
  assumes "reaches_scan d mi"
    and "k < unat (num_bc mi)"
    and "dev_magic d mi k \<noteq> BOOTCOUNT_MAGIC" and "dev_magic d mi k \<noteq> 0xffffffff"
    and "\<forall>j<k. dev_magic d mi j \<noteq> 0xffffffff"
  shows "retval (mtd_resetbc d) = - 3 \<and> calls (mtd_resetbc d) = [] \<and>
         flash_after (mtd_resetbc d) = flash d"
proof -
  define k' where "k' = (LEAST j. dev_magic d mi j \<noteq> BOOTCOUNT_MAGIC)"
  have bad: "dev_magic d mi k' \<noteq> BOOTCOUNT_MAGIC"
    unfolding k'_def using assms(3) by (rule LeastI)
  have le: "k' \<le> k" unfolding k'_def using assms(3) by (rule Least_le)
  have "dev_magic d mi j = BOOTCOUNT_MAGIC" if "j < k'" for j
    using not_less_Least[of j "\<lambda>j. dev_magic d mi j \<noteq> BOOTCOUNT_MAGIC"] that
    unfolding k'_def by blast
  then have pre: "dev_written_prefix d mi k'"
    by (simp add: dev_written_prefix_def written_prefix_iff dev_magic_def)
  have ne: "dev_magic d mi k' \<noteq> 0xffffffff"
    using le assms(4,5) by (cases "k' = k") auto
  have "k' < unat (num_bc mi)" using le assms(2) by simp
  then have s: "dev_scan d mi = Inl (- 3)"
    using dev_scan_corrupt[OF assms(1) pre _ bad ne] by simp
  show ?thesis unfolding resetbc_reaches[OF assms(1)] s by simp
qed

theorem corrupt_magic_untouched_witness:
  "reaches_scan dev_corrupt geometry_small \<and> (1::nat) < unat (num_bc geometry_small) \<and>
   dev_magic dev_corrupt geometry_small 1 \<noteq> BOOTCOUNT_MAGIC \<and>
   dev_magic dev_corrupt geometry_small 1 \<noteq> 0xffffffff \<and>
   dev_magic dev_corrupt geometry_small 0 \<noteq> 0xffffffff \<and>
   retval (mtd_resetbc dev_corrupt) = - 3 \<and> calls (mtd_resetbc dev_corrupt) = [] \<and>
   flash_after (mtd_resetbc dev_corrupt) = flash dev_corrupt"
  using corrupt_magic_untouched [of dev_corrupt geometry_small 1] dev_corrupt_log
  by (simp add: small_layout BOOTCOUNT_MAGIC_def)

section \<open>A full log\<close>

text \<open>
  Claim C4. When all \<open>num_bc\<close> slots hold written records and the count of the last one is
  not 0, the reset issues one erase of the whole device (offset 0, length the device
  size), from the whole-device branch and not the block branch, and then, the erase
  having succeeded, one write at offset 0 of one record of stride bytes. Nothing else
  touches the device.
\<close>

theorem full_log_whole_device_erase:
  assumes "reaches_scan d mi"
    and "dev_written_prefix d mi (unat (num_bc mi))"
    and "dev_last_count d mi (unat (num_bc mi)) \<noteq> 0"
  shows "filter (\<lambda>c. c \<noteq> Sync) (calls (mtd_resetbc d)) =
           MEMERASE Whole_device 0 (unat (size_mtd mi)) (erase_ret d) #
           (if erase_ret d < 0 then []
            else [Pwrite 0 (zero_record (big_endian d) (unat (bc_offset_increment mi)))
                    (pwrite_ret d)]) \<and>
         length (zero_record (big_endian d) (unat (bc_offset_increment mi))) =
           unat (bc_offset_increment mi)"
  using resetbc_full_log[OF assms] layout_bounds(1)[of mi]
  by (simp add: length_zero_record)

theorem full_log_whole_device_erase_witness:
  "reaches_scan dev_full geometry_small \<and>
   dev_written_prefix dev_full geometry_small (unat (num_bc geometry_small)) \<and>
   dev_last_count dev_full geometry_small (unat (num_bc geometry_small)) \<noteq> 0 \<and>
   filter (\<lambda>c. c \<noteq> Sync) (calls (mtd_resetbc dev_full)) =
     [MEMERASE Whole_device 0 64 0, Pwrite 0 (zero_record False 16) 5] \<and>
   length (zero_record False 16) = 16"
  using full_log_whole_device_erase [of dev_full geometry_small] dev_full_log
  by (simp add: small_layout dev_full_def small_fields)

section \<open>The record layout\<close>

text \<open>
  Claim C5. For every device geometry the derived layout is
  \<open>stride = max writeGranularity 16\<close>, \<open>eraseUnit = max eraseUnitSize stride\<close> and
  \<open>recordsPerEraseUnit = eraseUnit / stride\<close> (as unsigned 32-bit values and as the
  numbers handed to the scan); a reported write granularity of 8 gives the stride 16.
\<close>

theorem layout_derivation:
  "bc_offset_increment mi = max (writesize mi) 16 \<and>
   erase_size mi = max (erasesize mi) (bc_offset_increment mi) \<and>
   page_num_bc mi = erase_size mi div bc_offset_increment mi \<and>
   unat (bc_offset_increment mi) = max (unat (writesize mi)) 16 \<and>
   unat (erase_size mi) = max (unat (erasesize mi)) (unat (bc_offset_increment mi)) \<and>
   unat (page_num_bc mi) = unat (erase_size mi) div unat (bc_offset_increment mi) \<and>
   (writesize mi = 8 \<longrightarrow> bc_offset_increment mi = 16)"
proof -
  have a: "bc_offset_increment mi = max (writesize mi) 16"
    by (auto simp: bc_offset_increment_def BC_OFFSET_INCREMENT_MIN_def max_def)
  have b: "erase_size mi = max (erasesize mi) (bc_offset_increment mi)"
    by (auto simp: erase_size_def max_def)
  have c: "unat (bc_offset_increment mi) = max (unat (writesize mi)) 16"
    by (auto simp: bc_offset_increment_def BC_OFFSET_INCREMENT_MIN_def max_def
        word_less_nat_alt)
  have d: "unat (erase_size mi) = max (unat (erasesize mi)) (unat (bc_offset_increment mi))"
    by (auto simp: erase_size_def max_def word_less_nat_alt)
  have e: "writesize mi = 8 \<longrightarrow> bc_offset_increment mi = 16"
    by (simp add: bc_offset_increment_def BC_OFFSET_INCREMENT_MIN_def)
  show ?thesis
    using a b c d e by (simp add: page_num_bc_def unat_div)
qed

theorem layout_derivation_witness:
  "writesize geometry_ws8 = 8 \<and> bc_offset_increment geometry_ws8 = 16 \<and>
   erase_size geometry_ws8 = 4096 \<and> page_num_bc geometry_ws8 = 256"
  using layout_derivation [of geometry_ws8]
  by (simp add: geometry_ws8_def)

section \<open>What the scan buffers and the write-back carries\<close>

text \<open>
  Claim C6, as stated: each visited slot is read in full (stride bytes) into the
  buffer, so that the write-back rewrites the records before the reset slot byte for
  byte, alongside the new zero record. This fails twice. The read takes
  \<open>sizeof(struct bootcounter)\<close>, 12 bytes, of a slot of at least 16: on \<open>dev_padding\<close> the
  reset returns 0 and byte 12 of slot 0, \<open>0xff\<close> before the call, afterwards holds
  \<open>0xaa\<close>, the byte the fresh heap block held there. And when the free slot is the last
  of its erase block the write-back carries nothing at all: on \<open>dev_last_slot\<close> the one
  write is of 0 bytes, at the next block.
\<close>

theorem padding_not_rewritten_verbatim:
  "retval (mtd_resetbc dev_padding) = 0 \<and>
   flash_after (mtd_resetbc dev_padding) ! 12 = 0xaa \<and> flash dev_padding ! 12 = 0xff \<and>
   slice 0 16 (flash_after (mtd_resetbc dev_padding)) \<noteq> slice 0 16 (flash dev_padding) \<and>
   calls (mtd_resetbc dev_last_slot) = [MEMERASE Single_block 32 32 0, Pwrite 32 [] 0, Sync]"
proof -
  from dev_padding_run obtain bs where
    run: "mtd_resetbc dev_padding =
          \<lparr>retval = 0,
           flash_after = dev_write (dev_erase (flash dev_padding) 0 64) 0 bs,
           calls = [MEMERASE Single_block 0 64 0, Pwrite 0 bs 32, Sync], cleanup = Freed\<rparr>"
    and lb: "length bs = 32" and b12: "bs ! 12 = 0xaa"
    by blast
  have lf: "length (flash dev_padding) = 64"
    by (simp add: dev_padding_fields length_slots)
  have a: "flash_after (mtd_resetbc dev_padding) ! 12 = 0xaa"
    unfolding run using lf lb b12 by (simp add: dev_write_nth length_dev_erase)
  have f: "flash dev_padding ! 12 = 0xff"
    by (simp add: dev_padding_fields le_record_def)
  have la: "length (flash_after (mtd_resetbc dev_padding)) = 64"
    unfolding run using lf by (simp add: dev_write_def length_dev_erase)
  have "slice 0 16 (flash_after (mtd_resetbc dev_padding)) ! 12 \<noteq> slice 0 16 (flash dev_padding) ! 12"
    using a f by (simp add: slice_def)
  then have ne: "slice 0 16 (flash_after (mtd_resetbc dev_padding)) \<noteq> slice 0 16 (flash dev_padding)"
    by metis
  have l: "calls (mtd_resetbc dev_last_slot) =
      [MEMERASE Single_block 32 32 0, Pwrite 32 [] 0, Sync]"
    by (simp add: dev_last_slot_run)
  show ?thesis using a f ne l by (simp add: run)
qed

text \<open>
  Claim C6, amended. With \<open>k\<close> written records before the first free slot \<open>k\<close>, a last
  count that is not 0, and slot \<open>k\<close> not the last slot of its erase block:

  \<^item> for every slot index \<open>i \<le> k\<close> visited, the read copies the 12 bytes of the record
    (magic, count, checksum) from device offset \<open>i * stride\<close> into the buffer at slot
    position \<open>i mod recordsPerEraseUnit\<close>, and when the loop is left the buffer holds
    them there for every slot of the block of \<open>k\<close> up to \<open>k\<close>;

  \<^item> the device calls are the erase of the block at \<open>eraseStart\<close>, the index of that
    block times the erase unit, and then, the erase having succeeded, one write at
    \<open>eraseStart\<close> of \<open>(k mod recordsPerEraseUnit + 1) * stride\<close> bytes, in which every slot
    before the last carries the 12 record bytes of the corresponding slot of the block,
    as they were on the device, and the last slot is the zero record;

  \<^item> \<open>eraseStart\<close> lies the block index times \<open>eraseUnit mod stride\<close> bytes after the
    first slot of the block: the records return to their own offsets when the stride
    divides the erase unit.
\<close>

theorem write_back_carries_records:
  assumes "reaches_scan d mi" and "dev_written_prefix d mi k" and "k < unat (num_bc mi)"
    and "dev_magic d mi k = 0xffffffff" and "dev_last_count d mi k \<noteq> 0"
    and "Suc k mod unat (page_num_bc mi) \<noteq> 0"
  shows "(\<forall>i\<le>k. \<exists>s. scan_prefix d mi i = Inr s \<and> i_v s = i \<and>
            page_v (scan_read (flash d) (unat (bc_offset_increment mi))
                      (unat (page_num_bc mi)) (unat (erase_size mi)) s) =
            poke (page_v s) ((i mod unat (page_num_bc mi)) * unat (bc_offset_increment mi))
              (slice (i * unat (bc_offset_increment mi)) 12 (flash d))) \<and>
         (\<exists>s. dev_scan d mi = Inr s \<and> i_v s = k \<and>
            (\<forall>j. k - k mod unat (page_num_bc mi) \<le> j \<and> j \<le> k \<longrightarrow>
               slice ((j mod unat (page_num_bc mi)) * unat (bc_offset_increment mi)) 12
                 (page_v s) =
               slice (j * unat (bc_offset_increment mi)) 12 (flash d))) \<and>
         (\<exists>bs. filter (\<lambda>c. c \<noteq> Sync) (calls (mtd_resetbc d)) =
              MEMERASE Single_block
                ((k div unat (page_num_bc mi) * unat (erase_size mi)) mod 2 ^ 32)
                (unat (erase_size mi)) (erase_ret d) #
              (if erase_ret d < 0 then []
               else [Pwrite (k div unat (page_num_bc mi) * unat (erase_size mi)) bs
                       (pwrite_ret d)]) \<and>
            length bs = (k mod unat (page_num_bc mi) + 1) * unat (bc_offset_increment mi) \<and>
            (\<forall>j<k mod unat (page_num_bc mi).
               slice (j * unat (bc_offset_increment mi)) 12 bs =
               slice ((k - k mod unat (page_num_bc mi) + j) * unat (bc_offset_increment mi)) 12
                 (flash d)) \<and>
            slice (k mod unat (page_num_bc mi) * unat (bc_offset_increment mi))
              (unat (bc_offset_increment mi)) bs =
            zero_record (big_endian d) (unat (bc_offset_increment mi))) \<and>
         (\<forall>j. k div unat (page_num_bc mi) * unat (erase_size mi) +
                 j * unat (bc_offset_increment mi) =
               (k - k mod unat (page_num_bc mi) + j) * unat (bc_offset_increment mi) +
                 k div unat (page_num_bc mi) *
                   (unat (erase_size mi) mod unat (bc_offset_increment mi)))"
proof -
  have a: "\<forall>i\<le>k. \<exists>s. scan_prefix d mi i = Inr s \<and> i_v s = i \<and>
            page_v (scan_read (flash d) (unat (bc_offset_increment mi))
                      (unat (page_num_bc mi)) (unat (erase_size mi)) s) =
            poke (page_v s) ((i mod unat (page_num_bc mi)) * unat (bc_offset_increment mi))
              (slice (i * unat (bc_offset_increment mi)) 12 (flash d))"
    using visit_reads_record[OF assms(1-3)] by blast
  from dev_scan_free[OF assms(1-4)] obtain s where s: "dev_scan d mi = Inr s"
    and i: "i_v s = k" by blast
  have "\<forall>j. k - k mod unat (page_num_bc mi) \<le> j \<and> j \<le> k \<longrightarrow>
               slice ((j mod unat (page_num_bc mi)) * unat (bc_offset_increment mi)) 12
                 (page_v s) =
               slice (j * unat (bc_offset_increment mi)) 12 (flash d)"
    using scanned_buffer[OF assms(1) s] assms(3) unfolding i by simp
  then have b: "\<exists>s. dev_scan d mi = Inr s \<and> i_v s = k \<and>
            (\<forall>j. k - k mod unat (page_num_bc mi) \<le> j \<and> j \<le> k \<longrightarrow>
               slice ((j mod unat (page_num_bc mi)) * unat (bc_offset_increment mi)) 12
                 (page_v s) =
               slice (j * unat (bc_offset_increment mi)) 12 (flash d))"
    using s i by blast
  note c = resetbc_block_write[OF assms]
  have pn: "unat (page_num_bc mi) = unat (erase_size mi) div unat (bc_offset_increment mi)"
    by (simp add: page_num_bc_def unat_div)
  have e: "\<forall>j. k div unat (page_num_bc mi) * unat (erase_size mi) +
                 j * unat (bc_offset_increment mi) =
               (k - k mod unat (page_num_bc mi) + j) * unat (bc_offset_increment mi) +
                 k div unat (page_num_bc mi) *
                   (unat (erase_size mi) mod unat (bc_offset_increment mi))"
    using write_offset_drift[OF pn] by blast
  show ?thesis using a b c e by blast
qed

theorem write_back_carries_records_witness:
  "reaches_scan dev_padding geometry_one_block \<and>
   dev_written_prefix dev_padding geometry_one_block 1 \<and>
   (1::nat) < unat (num_bc geometry_one_block) \<and>
   dev_magic dev_padding geometry_one_block 1 = 0xffffffff \<and>
   dev_last_count dev_padding geometry_one_block 1 \<noteq> 0 \<and>
   Suc 1 mod unat (page_num_bc geometry_one_block) \<noteq> 0 \<and>
   (\<exists>bs. filter (\<lambda>c. c \<noteq> Sync) (calls (mtd_resetbc dev_padding)) =
            [MEMERASE Single_block 0 64 0, Pwrite 0 bs 32] \<and>
          length bs = 32 \<and> slice 0 12 bs = slice 0 12 (flash dev_padding) \<and>
          slice 16 16 bs = zero_record False 16)"
proof -
  have h: "(1::nat) < unat (num_bc geometry_one_block)"
    "dev_last_count dev_padding geometry_one_block 1 \<noteq> 0"
    "Suc 1 mod unat (page_num_bc geometry_one_block) \<noteq> 0"
    using dev_padding_log(4) by (simp_all add: one_block_layout)
  note t = write_back_carries_records [OF dev_padding_log(1,2) h(1) dev_padding_log(3) h(2,3),
      unfolded one_block_layout]
  then obtain bs where
    c: "filter (\<lambda>c. c \<noteq> Sync) (calls (mtd_resetbc dev_padding)) =
          MEMERASE Single_block ((1 div 4 * 64) mod 2 ^ 32) 64 (erase_ret dev_padding) #
          (if erase_ret dev_padding < 0 then []
           else [Pwrite (1 div 4 * 64) bs (pwrite_ret dev_padding)])"
    and l: "length bs = (1 mod 4 + 1) * 16"
    and r: "\<forall>j<1 mod 4. slice (j * 16) 12 bs = slice ((1 - 1 mod 4 + j) * 16) 12 (flash dev_padding)"
    and z: "slice (1 mod 4 * 16) 16 bs = zero_record (big_endian dev_padding) 16"
    by blast
  have c': "filter (\<lambda>c. c \<noteq> Sync) (calls (mtd_resetbc dev_padding)) =
            [MEMERASE Single_block 0 64 0, Pwrite 0 bs 32]"
    using c by (simp add: dev_padding_fields)
  have l': "length bs = 32" using l by simp
  have r': "slice 0 12 bs = slice 0 12 (flash dev_padding)"
    using r[rule_format, of 0] by simp
  have z': "slice 16 16 bs = zero_record False 16"
    using z by (simp add: dev_padding_fields)
  show ?thesis
    using dev_padding_log h c' l' r' z' by blast
qed

section \<open>How the scan classifies a slot\<close>

text \<open>
  Claim C7, as stated: a slot is taken as erased, and the scan stops there, exactly
  when the whole slot equals the erased fill pattern. This fails: the first slot of
  \<open>dev_ff_magic\<close> has magic \<open>0xffffffff\<close> and count 1, so it is not all ones, and the
  scan stops at it as at a free slot (the reset then returns 0 without touching the
  device).
\<close>

theorem erased_by_magic_alone:
  "slice 0 16 (flash dev_ff_magic) \<noteq> replicate 16 0xff \<and>
   \<not> isl (dev_scan dev_ff_magic geometry_small) \<and>
   i_v (projr (dev_scan dev_ff_magic geometry_small)) = 0 \<and>
   retval (mtd_resetbc dev_ff_magic) = 0 \<and> calls (mtd_resetbc dev_ff_magic) = []"
proof -
  from dev_scan_free[OF dev_ff_magic_log(1) dev_written_prefix_0 _ dev_ff_magic_log(2)]
  obtain s where s: "dev_scan dev_ff_magic geometry_small = Inr s" and i: "i_v s = 0"
    and l: "last_count_v s = sint (dev_last_count dev_ff_magic geometry_small 0)"
    by (auto simp: small_layout)
  have l0: "last_count_v s = 0"
    using l by (simp add: dev_last_count_def last_written_count_def)
  have run: "mtd_resetbc dev_ff_magic = erase_and_write dev_ff_magic geometry_small s"
    unfolding resetbc_reaches[OF dev_ff_magic_log(1)] s by simp
  have "slice 0 16 (flash dev_ff_magic) ! 4 \<noteq> replicate 16 (0xff::byte) ! 4"
    by (simp add: dev_ff_magic_def ff_magic_slot_def small_fields slice_def)
  then have ne: "slice 0 16 (flash dev_ff_magic) \<noteq> replicate 16 0xff" by metis
  show ?thesis
    using ne s i l0 by (simp add: run erase_and_write_def)
qed

text \<open>
  Claim C7, amended: the slot after \<open>k\<close> written records is classified by its 4-byte
  magic field alone, whatever its other bytes hold. The scan over the first \<open>k + 1\<close>
  slots stops at slot \<open>k\<close> as free exactly when the magic is \<open>0xffffffff\<close>; it takes
  the slot as a written record, recording its count and moving past it, exactly when
  the magic is \<open>BOOTCOUNT_MAGIC\<close>; it aborts with -3 exactly when the magic is neither.
  The scan of the whole log stops at slot \<open>k\<close> exactly when that magic is \<open>0xffffffff\<close>.
\<close>

theorem slot_classified_by_magic:
  assumes "reaches_scan d mi" and "k < unat (num_bc mi)" and "dev_written_prefix d mi k"
  shows "((\<exists>s. scan_prefix d mi (Suc k) = Inr s \<and> i_v s = k) \<longleftrightarrow>
            dev_magic d mi k = 0xffffffff) \<and>
         ((\<exists>s. scan_prefix d mi (Suc k) = Inr s \<and> i_v s = Suc k \<and>
               last_count_v s = sint (dev_last_count d mi (Suc k))) \<longleftrightarrow>
            dev_magic d mi k = BOOTCOUNT_MAGIC) \<and>
         (scan_prefix d mi (Suc k) = Inl (- 3) \<longleftrightarrow>
            dev_magic d mi k \<noteq> BOOTCOUNT_MAGIC \<and> dev_magic d mi k \<noteq> 0xffffffff) \<and>
         ((\<exists>s. dev_scan d mi = Inr s \<and> i_v s = k) \<longleftrightarrow> dev_magic d mi k = 0xffffffff)"
proof -
  note c = scan_prefix_cases[OF assms]
  consider (free) "dev_magic d mi k = 0xffffffff"
    | (written) "dev_magic d mi k = BOOTCOUNT_MAGIC"
    | (corrupt) "dev_magic d mi k \<noteq> BOOTCOUNT_MAGIC" "dev_magic d mi k \<noteq> 0xffffffff"
    by blast
  then have three: "((\<exists>s. scan_prefix d mi (Suc k) = Inr s \<and> i_v s = k) \<longleftrightarrow>
            dev_magic d mi k = 0xffffffff) \<and>
         ((\<exists>s. scan_prefix d mi (Suc k) = Inr s \<and> i_v s = Suc k \<and>
               last_count_v s = sint (dev_last_count d mi (Suc k))) \<longleftrightarrow>
            dev_magic d mi k = BOOTCOUNT_MAGIC) \<and>
         (scan_prefix d mi (Suc k) = Inl (- 3) \<longleftrightarrow>
            dev_magic d mi k \<noteq> BOOTCOUNT_MAGIC \<and> dev_magic d mi k \<noteq> 0xffffffff)"
  proof cases
    case free
    then show ?thesis using c(1) magic_not_erased by auto
  next
    case written
    then show ?thesis using c(2) magic_not_erased by auto
  next
    case corrupt
    then show ?thesis using c(3) by auto
  qed
  have "(\<exists>s. dev_scan d mi = Inr s \<and> i_v s = k) \<longleftrightarrow> dev_magic d mi k = 0xffffffff"
    using dev_scan_free[OF assms(1,3,2)] dev_scan_stops_free[OF assms(1)] assms(2) by blast
  with three show ?thesis by blast
qed

theorem slot_classified_by_magic_witness:
  "reaches_scan dev_ff_magic geometry_small \<and> (0::nat) < unat (num_bc geometry_small) \<and>
   dev_written_prefix dev_ff_magic geometry_small 0 \<and>
   dev_magic dev_ff_magic geometry_small 0 = 0xffffffff \<and>
   (\<exists>s. scan_prefix dev_ff_magic geometry_small (Suc 0) = Inr s \<and> i_v s = 0) \<and>
   (\<exists>s. dev_scan dev_ff_magic geometry_small = Inr s \<and> i_v s = 0)"
  using slot_classified_by_magic [of dev_ff_magic geometry_small 0] dev_ff_magic_log
  by (simp add: small_layout dev_written_prefix_0)

section \<open>Result codes\<close>

text \<open>
  Claim C8. The reset returns one of the seven codes 0, -1, ..., -6, and each negative
  code stands for one failure class, -1 for a failed geometry query. The code does not
  meet this for that class: on \<open>dev_no_geometry\<close> it sets \<open>retval\<close> to -1 and jumps to
  \<open>out\<close> (lines 98-99), where \<open>if (page)\<close> reads the pointer that was never assigned
  (line 82), so that the call has no defined return value. This is the defect of claim
  C9. On the paths after a successful geometry query the codes are as the claim says
  (\<open>result_codes_after_geometry\<close>).
\<close>

theorem geometry_failure_return_undefined:
  "geometry dev_no_geometry = None \<and> retval (mtd_resetbc dev_no_geometry) = - 1 \<and>
   returned (mtd_resetbc dev_no_geometry) = None \<and>
   returned (mtd_resetbc dev_no_geometry) \<noteq> Some (- 1)"
  by (simp add: mtd_resetbc_def dev_no_geometry_def returned_def)

section \<open>The cleanup at label \<open>out\<close>\<close>

text \<open>
  Claim C9. On every exit path the scratch buffer is released exactly when it was
  allocated, and the test of the buffer pointer at the cleanup is well defined. The
  code does not meet this on the path of a failed geometry query: \<open>goto out\<close> at line 99
  reaches \<open>if (page)\<close> before \<open>page\<close> has been assigned (it is declared without an
  initialiser at line 82, and first assigned at line 125).
\<close>

theorem cleanup_reads_unassigned_page:
  "retval (mtd_resetbc dev_no_geometry) = - 1 \<and>
   cleanup (mtd_resetbc dev_no_geometry) = Uninitialised_read"
  by (simp add: mtd_resetbc_def dev_no_geometry_def)

section \<open>Short writes\<close>

text \<open>
  Claim C10. Whatever non-negative value the write call returns, also one below the
  number of bytes requested, the reset goes on to the flush and returns 0; it returns
  -6 exactly when the write call returns a negative value.
\<close>

theorem short_write_reported_as_success:
  "(\<forall>off bs r. Pwrite off bs r \<in> set (calls (mtd_resetbc d)) \<longrightarrow>
      r = pwrite_ret d \<and>
      (if r < 0 then retval (mtd_resetbc d) = - 6 \<and> Sync \<notin> set (calls (mtd_resetbc d))
       else retval (mtd_resetbc d) = 0 \<and>
            (\<exists>cs. calls (mtd_resetbc d) = cs @ [Pwrite off bs r, Sync]))) \<and>
   (retval (mtd_resetbc d) = - 6 \<longleftrightarrow> list_ex write_failed (calls (mtd_resetbc d)))"
proof (cases d rule: resetbc_run_cases)
  case nogeom
  then show ?thesis by simp
next
  case (nomem mi)
  then show ?thesis by simp
next
  case (corrupt mi)
  then show ?thesis by simp
next
  case (scanned mi s)
  show ?thesis
    unfolding scanned(4)
    using erase_and_write_pwrite[of _ _ _ d mi s] erase_and_write_codes(4)[of d mi s]
    by blast
qed

theorem short_write_reported_as_success_witness:
  "Pwrite 0 (zero_record False 16) 5 \<in> set (calls (mtd_resetbc dev_full)) \<and>
   (5::int) < int (length (zero_record False 16)) \<and>
   pwrite_ret dev_full = 5 \<and>
   retval (mtd_resetbc dev_full) = 0 \<and> \<not> list_ex write_failed (calls (mtd_resetbc dev_full))"
proof -
  have m: "Pwrite 0 (zero_record False 16) 5 \<in> set (calls (mtd_resetbc dev_full))"
    by (simp add: dev_full_run)
  have l: "(5::int) < int (length (zero_record False 16))"
    by (simp add: length_zero_record)
  show ?thesis
    using short_write_reported_as_success [of dev_full] m l by auto
qed

end
